theory Spec2Isabelle
  imports Main "HOL-Library.Word" "HOL-Library.Multiset"
begin

section \<open>Run-time panics\<close>

text \<open>
  Neither package returns an error value. What can go wrong at run time in Go is a panic:
  dereferencing a nil pointer, indexing a slice out of range, a failed type assertion.
  Every such place of the source is a branch of the model that returns \<open>Inl\<close>.
\<close>

datatype panic = NilDereference | IndexOutOfRange | TypeAssertion

section \<open>Package consistenthash\<close>

subsection \<open>Library functions the package calls\<close>

text \<open>
  \<open>strconv.Itoa\<close>: the decimal string of an integer, most significant digit first,
  with a leading minus sign for a negative number. A Go string is a byte sequence,
  which is what \<^typ>\<open>string\<close> is.
\<close>

definition digit_char :: "nat \<Rightarrow> char" where
  "digit_char d = char_of (48 + d)"

fun decimal :: "nat \<Rightarrow> string" where
  "decimal n = (if n < 10 then [digit_char n] else decimal (n div 10) @ [digit_char (n mod 10)])"

declare decimal.simps [simp del]

definition Itoa :: "int \<Rightarrow> string" where
  "Itoa i = (if i < 0 then CHR ''-'' # decimal (nat (- i)) else decimal (nat i))"

text \<open>
  Reading a slice at an index: Go panics when the index is not below the length.
\<close>

definition index :: "'a list \<Rightarrow> nat \<Rightarrow> panic + 'a" where
  "index xs i = (if i < length xs then Inr (xs ! i) else Inl IndexOutOfRange)"

text \<open>
  \<open>sort.Search(n, f)\<close>: the binary search of the standard library. It keeps
  \<open>i \<le> j\<close>, halves the interval at \<open>h = (i + j) / 2\<close> and moves \<open>i\<close> past \<open>h\<close> when
  \<open>f h\<close> is false, \<open>j\<close> down to \<open>h\<close> otherwise. The predicate is the caller's closure and may
  panic; the panic propagates.
\<close>

function Search_loop :: "(nat \<Rightarrow> panic + bool) \<Rightarrow> nat \<Rightarrow> nat \<Rightarrow> panic + nat" where
  "Search_loop f i j =
     (if i < j then
        (let h = (i + j) div 2 in
         case f h of
           Inl p \<Rightarrow> Inl p
         | Inr b \<Rightarrow> if \<not> b then Search_loop f (h + 1) j else Search_loop f i h)
      else Inr i)"
  by pat_completeness auto
termination
  by (relation "measure (\<lambda>(f, i, j). j - i)") auto

declare Search_loop.simps [simp del]

definition Search :: "nat \<Rightarrow> (nat \<Rightarrow> panic + bool) \<Rightarrow> panic + nat" where
  "Search n f = Search_loop f 0 n"

subsection \<open>The ring\<close>

text \<open>
  \<open>type Hash func(data []byte) uint32\<close> and \<open>type Map struct\<close>. The positions are Go
  \<open>int\<close>s obtained from the 32-bit hash by \<open>int(...)\<close>; on a 64-bit platform that is the
  unsigned value of the word.
\<close>

type_synonym Hash = "string \<Rightarrow> 32 word"

record consistenthash_Map =
  hash :: Hash
  replicas :: int
  keys :: "int list"
  hashMap :: "int \<rightharpoonup> string"

text \<open>
  \<open>New(replicas, fn)\<close>. A nil \<open>fn\<close> (here \<open>None\<close>) selects \<open>crc32.ChecksumIEEE\<close>, a
  function of the standard library that is taken as the parameter \<open>ChecksumIEEE\<close>.
  The slice \<open>keys\<close> starts as nil, which has length 0 and appends like the empty slice.
\<close>

definition consistenthash_New :: "Hash \<Rightarrow> int \<Rightarrow> Hash option \<Rightarrow> consistenthash_Map" where
  "consistenthash_New ChecksumIEEE n fn =
     \<lparr>hash = (case fn of None \<Rightarrow> ChecksumIEEE | Some f \<Rightarrow> f),
      replicas = n,
      keys = [],
      hashMap = Map.empty\<rparr>"

definition Map_IsEmpty :: "consistenthash_Map \<Rightarrow> bool" where
  "Map_IsEmpty m = (length (keys m) = 0)"

text \<open>
  \<open>Map.Add\<close>. The inner loop \<open>for i := 0; i < m.replicas; i++\<close> for one node, the outer
  loop over the supplied nodes, then \<open>sort.Ints\<close>.
\<close>

function Add_replicas :: "string \<Rightarrow> int \<Rightarrow> consistenthash_Map \<Rightarrow> consistenthash_Map" where
  "Add_replicas node i m =
     (if i < replicas m then
        (let h = uint (hash m (Itoa i @ node)) in
         Add_replicas node (i + 1)
           (m\<lparr>keys := keys m @ [h], hashMap := (hashMap m)(h \<mapsto> node)\<rparr>))
      else m)"
  by pat_completeness auto
termination
  by (relation "measure (\<lambda>(node, i, m). nat (replicas m - i))") auto

declare Add_replicas.simps [simp del]

fun Add_nodes :: "string list \<Rightarrow> consistenthash_Map \<Rightarrow> consistenthash_Map" where
  "Add_nodes [] m = m"
| "Add_nodes (node # nodes) m = Add_nodes nodes (Add_replicas node 0 m)"

definition Map_Add :: "string list \<Rightarrow> consistenthash_Map \<Rightarrow> consistenthash_Map" where
  "Map_Add nodes m = (let m' = Add_nodes nodes m in m'\<lparr>keys := sort (keys m')\<rparr>)"

text \<open>
  \<open>Map.Get\<close>. Reading a Go map at a missing key gives the zero value, the empty string.
\<close>

definition lookup :: "(int \<rightharpoonup> string) \<Rightarrow> int \<Rightarrow> string" where
  "lookup hm p = (case hm p of None \<Rightarrow> [] | Some node \<Rightarrow> node)"

definition Map_Get :: "string \<Rightarrow> consistenthash_Map \<Rightarrow> panic + string" where
  "Map_Get key m =
     (if Map_IsEmpty m then Inr []
      else
        (let h = uint (hash m key) in
         case Search (length (keys m))
                (\<lambda>i. case index (keys m) i of Inl p \<Rightarrow> Inl p | Inr x \<Rightarrow> Inr (h \<le> x)) of
           Inl p \<Rightarrow> Inl p
         | Inr found \<Rightarrow>
             (let idx = (if found = length (keys m) then 0 else found) in
              case index (keys m) idx of
                Inl p \<Rightarrow> Inl p
              | Inr pos \<Rightarrow> Inr (lookup (hashMap m) pos))))"

text \<open>The rings a program can hold: made by \<open>New\<close>, changed only by \<open>Add\<close>.\<close>

inductive ring :: "consistenthash_Map \<Rightarrow> bool" where
  ring_New: "ring (consistenthash_New ChecksumIEEE n fn)"
| ring_Add: "ring m \<Longrightarrow> ring (Map_Add nodes m)"

text \<open>
  The placements one \<open>Add\<close> call makes, in the order it makes them: node by node, and for
  each node the replica indices \<open>0, 1, ..., replicas - 1\<close>, each giving the pair of the
  position \<open>hash(Itoa(i) + node)\<close> and the node.
\<close>

definition replica_placements :: "Hash \<Rightarrow> int \<Rightarrow> string \<Rightarrow> (int \<times> string) list" where
  "replica_placements hf r node = map (\<lambda>i. (uint (hf (Itoa i @ node)), node)) [0..r - 1]"

definition placements :: "Hash \<Rightarrow> int \<Rightarrow> string list \<Rightarrow> (int \<times> string) list" where
  "placements hf r nodes = concat (map (replica_placements hf r) nodes)"

text \<open>A hash function for concrete rings: the length of the data.\<close>

definition length_hash :: Hash where
  "length_hash data = of_nat (length data)"

text \<open>
  Two concrete rings with one replica per node. In \<open>ring_ab\<close> the nodes sit at the
  positions 2 and 4; in \<open>ring_collision\<close> both nodes hash to position 2.
\<close>

definition ring_ab :: consistenthash_Map where
  "ring_ab = Map_Add [''a'', ''bbb''] (consistenthash_New length_hash 1 (Some length_hash))"

definition ring_collision :: consistenthash_Map where
  "ring_collision = Map_Add [''a'', ''b''] (consistenthash_New length_hash 1 None)"

section \<open>Package lru\<close>

subsection \<open>The cache\<close>

text \<open>
  \<open>type entry struct\<close> and \<open>type Cache struct\<close>. The list \<open>ll\<close> of \<open>container/list\<close>
  holds elements, each a heap object with its own identity that points to its entry; the
  map \<open>cache\<close> holds pointers to the same elements. The model keeps that sharing: an
  \<open>Element\<close> is an address, \<open>elements\<close> is the store from addresses to the entry an
  element points to, \<open>ll\<close> is the sequence of addresses from front to back, and \<open>cache\<close>
  maps a key to an address. \<open>allocated\<close> is the next unused address. Both \<open>ll\<close> and
  \<open>cache\<close> are nil-able (\<open>None\<close>).

  \<open>OnEvicted\<close> is a nil-able callback. The model records whether it is set and, in
  \<open>evicted\<close>, every call made to it with its arguments, oldest call first; the callback is
  taken not to call back into the cache. What the callback can see of the cache when it
  runs is recorded too: \<open>observed\<close> holds, for every call and in the same order, the map
  \<open>cache\<close> and the list \<open>ll\<close> as they are at the moment of the call.

  The fields \<open>key\<close> and \<open>value\<close> of \<open>entry\<close> are \<open>ekey\<close> and \<open>evalue\<close> here.
  Keys are compared by HOL equality: they stand for Go values that can be map keys and
  are equal to themselves. \<open>MaxEntries\<close> and the list length are Go \<open>int\<close>s that never
  come near the word size, so they are unbounded integers.
\<close>

type_synonym Element = nat

record ('k, 'v) entry =
  ekey :: 'k
  evalue :: 'v

record ('k, 'v) Cache =
  MaxEntries :: int
  OnEvicted :: bool
  ll :: "Element list option"
  cache :: "('k \<rightharpoonup> Element) option"
  elements :: "Element \<rightharpoonup> ('k, 'v) entry"
  allocated :: Element
  evicted :: "('k \<times> 'v) list"
  observed :: "(('k \<rightharpoonup> Element) option \<times> Element list option) list"

subsection \<open>The operations of container/list that the cache calls\<close>

text \<open>
  \<open>MoveToFront\<close> and \<open>Remove\<close> do nothing for an element that is not in the list;
  \<open>Back\<close> is nil on an empty list.
\<close>

definition list_MoveToFront :: "Element \<Rightarrow> Element list \<Rightarrow> Element list" where
  "list_MoveToFront e l = (if e \<in> set l then e # remove1 e l else l)"

definition list_Remove :: "Element \<Rightarrow> Element list \<Rightarrow> Element list" where
  "list_Remove e l = remove1 e l"

definition list_Back :: "Element list \<Rightarrow> Element option" where
  "list_Back l = (case l of [] \<Rightarrow> None | _ # _ \<Rightarrow> Some (last l))"

definition list_Len :: "Element list \<Rightarrow> int" where
  "list_Len l = int (length l)"

subsection \<open>The operations of the cache\<close>

definition lru_New :: "int \<Rightarrow> ('k, 'v) Cache" where
  "lru_New maxEntries =
     \<lparr>MaxEntries = maxEntries, OnEvicted = False, ll = Some [], cache = Some Map.empty,
      elements = Map.empty, allocated = 0, evicted = [], observed = []\<rparr>"

text \<open>
  One call \<open>c.OnEvicted(key, value)\<close>, made in the state \<open>c\<close>: the arguments go to the
  call log and the map and list of \<open>c\<close> to the log of what the calls could see.
\<close>

definition OnEvicted_call :: "'k \<Rightarrow> 'v \<Rightarrow> ('k, 'v) Cache \<Rightarrow> ('k, 'v) Cache" where
  "OnEvicted_call k v c =
     c\<lparr>evicted := evicted c @ [(k, v)], observed := observed c @ [(cache c, ll c)]\<rparr>"

text \<open>
  \<open>removeElement\<close>: \<open>c.ll.Remove(e)\<close>, the type assertion \<open>e.Value.(*entry)\<close>,
  \<open>delete(c.cache, kv.key)\<close> (which does nothing on a nil map), then the callback when
  it is set.

  A method of \<open>container/list\<close> called on a nil \<open>*List\<close> is a panic in the model. In Go
  \<open>Len\<close>, \<open>Back\<close> and \<open>PushFront\<close> on a nil list always panic, and \<open>Remove\<close> and
  \<open>MoveToFront\<close> panic or do nothing; so whenever the model returns \<open>Inr\<close>, the Go
  program does not panic either. The type assertion \<open>e.Value.(*entry)\<close> panics for an
  element with no entry in the store.
\<close>

definition Cache_removeElement :: "Element \<Rightarrow> ('k, 'v) Cache \<Rightarrow> panic + ('k, 'v) Cache" where
  "Cache_removeElement e c =
     (case ll c of
        None \<Rightarrow> Inl NilDereference
      | Some l \<Rightarrow>
          (case elements c e of
             None \<Rightarrow> Inl TypeAssertion
           | Some kv \<Rightarrow>
               (let c1 = c\<lparr>ll := Some (list_Remove e l)\<rparr>;
                    c2 = c1\<lparr>cache := (case cache c1 of
                                         None \<Rightarrow> None
                                       | Some m \<Rightarrow> Some (m(ekey kv := None)))\<rparr>
                in Inr (if OnEvicted c2 then OnEvicted_call (ekey kv) (evalue kv) c2 else c2))))"

definition Cache_RemoveOldest :: "('k, 'v) Cache \<Rightarrow> panic + ('k, 'v) Cache" where
  "Cache_RemoveOldest c =
     (case cache c of
        None \<Rightarrow> Inr c
      | Some m \<Rightarrow>
          (case ll c of
             None \<Rightarrow> Inl NilDereference
           | Some l \<Rightarrow>
               (case list_Back l of
                  None \<Rightarrow> Inr c
                | Some ele \<Rightarrow> Cache_removeElement ele c)))"

definition Cache_Remove :: "'k \<Rightarrow> ('k, 'v) Cache \<Rightarrow> panic + ('k, 'v) Cache" where
  "Cache_Remove k c =
     (case cache c of
        None \<Rightarrow> Inr c
      | Some m \<Rightarrow>
          (case m k of
             Some ele \<Rightarrow> Cache_removeElement ele c
           | None \<Rightarrow> Inr c))"

text \<open>
  \<open>Add\<close>. A nil \<open>cache\<close> makes it allocate a new map and a new list first. For a key
  in the map: \<open>MoveToFront\<close>, then the assignment through the element's entry pointer.
  Otherwise \<open>PushFront\<close> allocates a new element for a new entry, the map records it, and
  the eviction test follows.
\<close>

definition Cache_Add :: "'k \<Rightarrow> 'v \<Rightarrow> ('k, 'v) Cache \<Rightarrow> panic + ('k, 'v) Cache" where
  "Cache_Add k v c0 =
     (let c = (case cache c0 of
                 None \<Rightarrow> c0\<lparr>cache := Some Map.empty, ll := Some []\<rparr>
               | Some _ \<Rightarrow> c0)
      in case cache c of
           None \<Rightarrow> Inl NilDereference
         | Some m \<Rightarrow>
             (case ll c of
                None \<Rightarrow> Inl NilDereference
              | Some l \<Rightarrow>
                  (case m k of
                     Some ee \<Rightarrow>
                       (case elements c ee of
                          None \<Rightarrow> Inl TypeAssertion
                        | Some kv \<Rightarrow>
                            Inr (c\<lparr>ll := Some (list_MoveToFront ee l),
                                   elements := (elements c)(ee \<mapsto> kv\<lparr>evalue := v\<rparr>)\<rparr>))
                   | None \<Rightarrow>
                       (let ele = allocated c;
                            c1 = c\<lparr>ll := Some (ele # l),
                                   elements := (elements c)(ele \<mapsto> \<lparr>ekey = k, evalue = v\<rparr>),
                                   allocated := Suc ele,
                                   cache := Some (m(k \<mapsto> ele))\<rparr>
                        in if MaxEntries c1 \<noteq> 0 \<and> list_Len (ele # l) > MaxEntries c1
                           then Cache_RemoveOldest c1
                           else Inr c1))))"

text \<open>
  \<open>Get\<close> returns the pair \<open>(value, ok)\<close> and leaves a new state. The zero value of the
  result \<open>value interface{}\<close> is nil, here \<open>None\<close>.
\<close>

definition Cache_Get :: "'k \<Rightarrow> ('k, 'v) Cache \<Rightarrow> panic + (('v option \<times> bool) \<times> ('k, 'v) Cache)" where
  "Cache_Get k c =
     (case cache c of
        None \<Rightarrow> Inr ((None, False), c)
      | Some m \<Rightarrow>
          (case m k of
             Some ele \<Rightarrow>
               (case ll c of
                  None \<Rightarrow> Inl NilDereference
                | Some l \<Rightarrow>
                    (case elements c ele of
                       None \<Rightarrow> Inl TypeAssertion
                     | Some kv \<Rightarrow>
                         Inr ((Some (evalue kv), True), c\<lparr>ll := Some (list_MoveToFront ele l)\<rparr>)))
           | None \<Rightarrow> Inr ((None, False), c)))"

definition Cache_Len :: "('k, 'v) Cache \<Rightarrow> panic + int" where
  "Cache_Len c =
     (case cache c of
        None \<Rightarrow> Inr 0
      | Some m \<Rightarrow> (case ll c of None \<Rightarrow> Inl NilDereference | Some l \<Rightarrow> Inr (list_Len l)))"

text \<open>
  \<open>Clear\<close>. Go does not fix the order in which \<open>range\<close> visits a map, so the order is
  the parameter \<open>ks\<close>: the keys of the map as the run time happens to yield them. Any
  list with \<open>range_order ks m\<close> is a possible order; over a nil map the loop body never
  runs.
\<close>

definition range_order :: "'k list \<Rightarrow> ('k \<rightharpoonup> Element) \<Rightarrow> bool" where
  "range_order ks m = (distinct ks \<and> set ks = dom m)"

fun Clear_range :: "'k list \<Rightarrow> ('k \<rightharpoonup> Element) \<Rightarrow> ('k, 'v) Cache \<Rightarrow> panic + ('k, 'v) Cache" where
  "Clear_range [] m c = Inr c"
| "Clear_range (k # ks) m c =
     (case m k of
        None \<Rightarrow> Clear_range ks m c
      | Some e \<Rightarrow>
          (case elements c e of
             None \<Rightarrow> Inl TypeAssertion
           | Some kv \<Rightarrow> Clear_range ks m (OnEvicted_call (ekey kv) (evalue kv) c)))"

definition Cache_Clear :: "'k list \<Rightarrow> ('k, 'v) Cache \<Rightarrow> panic + ('k, 'v) Cache" where
  "Cache_Clear ks c =
     (case (if OnEvicted c
            then Clear_range ks (case cache c of None \<Rightarrow> Map.empty | Some m \<Rightarrow> m) c
            else Inr c) of
        Inl p \<Rightarrow> Inl p
      | Inr c1 \<Rightarrow> Inr (c1\<lparr>ll := None, cache := None\<rparr>))"

subsection \<open>What a caller can observe, and the caches a caller can hold\<close>

text \<open>
  Reading a nil map behaves like reading an empty one. \<open>recency\<close> is the sequence of
  entries from most to least recently used, read through the element pointers.
\<close>

definition the_map :: "('k, 'v) Cache \<Rightarrow> 'k \<rightharpoonup> Element" where
  "the_map c = (case cache c of None \<Rightarrow> Map.empty | Some m \<Rightarrow> m)"

definition the_list :: "('k, 'v) Cache \<Rightarrow> Element list" where
  "the_list c = (case ll c of None \<Rightarrow> [] | Some l \<Rightarrow> l)"

fun entries_of :: "(Element \<rightharpoonup> ('k, 'v) entry) \<Rightarrow> Element list \<Rightarrow> ('k, 'v) entry list" where
  "entries_of h [] = []"
| "entries_of h (e # es) =
     (case h e of None \<Rightarrow> entries_of h es | Some kv \<Rightarrow> kv # entries_of h es)"

definition recency :: "('k, 'v) Cache \<Rightarrow> ('k, 'v) entry list" where
  "recency c = entries_of (elements c) (the_list c)"

text \<open>
  A sequence of \<open>Add\<close> calls, stopping at a panic as the program would.
\<close>

fun Adds :: "('k \<times> 'v) list \<Rightarrow> ('k, 'v) Cache \<Rightarrow> panic + ('k, 'v) Cache" where
  "Adds [] c = Inr c"
| "Adds ((k, v) # kvs) c = (case Cache_Add k v c of Inl p \<Rightarrow> Inl p | Inr c' \<Rightarrow> Adds kvs c')"

text \<open>
  The states of a cache made by \<open>New(maxEntries)\<close>, whose callback the caller may set or
  leave nil, after any sequence of the exported operations.
\<close>

inductive reachable :: "int \<Rightarrow> ('k, 'v) Cache \<Rightarrow> bool" for maxEntries :: int where
  reach_New: "reachable maxEntries ((lru_New maxEntries)\<lparr>OnEvicted := b\<rparr>)"
| reach_Add: "reachable maxEntries c \<Longrightarrow> Cache_Add k v c = Inr c' \<Longrightarrow> reachable maxEntries c'"
| reach_Get: "reachable maxEntries c \<Longrightarrow> Cache_Get k c = Inr (r, c') \<Longrightarrow> reachable maxEntries c'"
| reach_Remove: "reachable maxEntries c \<Longrightarrow> Cache_Remove k c = Inr c' \<Longrightarrow> reachable maxEntries c'"
| reach_RemoveOldest: "reachable maxEntries c \<Longrightarrow> Cache_RemoveOldest c = Inr c' \<Longrightarrow> reachable maxEntries c'"
| reach_Len: "reachable maxEntries c \<Longrightarrow> Cache_Len c = Inr n \<Longrightarrow> reachable maxEntries c"
| reach_Clear: "reachable maxEntries c \<Longrightarrow> range_order ks (the_map c) \<Longrightarrow>
     Cache_Clear ks c = Inr c' \<Longrightarrow> reachable maxEntries c'"

text \<open>
  The representation invariant: list and map are nil together; otherwise the list has no
  element twice, every element of the list is allocated, carries an entry and is the one
  the map gives for that entry's key, and every element the map gives for a key is in the
  list and carries an entry with that key.
\<close>

definition wf :: "('k, 'v) Cache \<Rightarrow> bool" where
  "wf c =
     (case ll c of
        None \<Rightarrow> (case cache c of None \<Rightarrow> True | Some m \<Rightarrow> False)
      | Some l \<Rightarrow>
          (case cache c of
             None \<Rightarrow> False
           | Some m \<Rightarrow>
               distinct l
               \<and> (\<forall>e \<in> set l. e < allocated c
                     \<and> (\<exists>kv. elements c e = Some kv \<and> m (ekey kv) = Some e))
               \<and> (\<forall>k e. m k = Some e \<longrightarrow>
                     e \<in> set l \<and> (\<exists>kv. elements c e = Some kv \<and> ekey kv = k))))"

text \<open>
  The zero value of \<open>Cache\<close>, which a program gets from \<open>var c lru.Cache\<close> or
  \<open>new(lru.Cache)\<close> without calling \<open>New\<close>.
\<close>

definition zero_Cache :: "('k, 'v) Cache" where
  "zero_Cache =
     \<lparr>MaxEntries = 0, OnEvicted = False, ll = None, cache = None,
      elements = Map.empty, allocated = 0, evicted = [], observed = []\<rparr>"

text \<open>
  Concrete caches: \<open>cache_empty\<close> is \<open>New(2)\<close> with a callback set, \<open>cache_a\<close> is
  its state after \<open>Add(1, 10)\<close> and \<open>cache_ab\<close> after a further \<open>Add(2, 20)\<close>.
\<close>

definition cache_empty :: "(nat, nat) Cache" where
  "cache_empty = (lru_New 2)\<lparr>OnEvicted := True\<rparr>"

definition cache_a :: "(nat, nat) Cache" where
  "cache_a =
     \<lparr>MaxEntries = 2, OnEvicted = True, ll = Some [0], cache = Some [1 \<mapsto> 0],
      elements = [0 \<mapsto> \<lparr>ekey = 1, evalue = 10\<rparr>], allocated = 1, evicted = [],
      observed = []\<rparr>"

definition cache_ab :: "(nat, nat) Cache" where
  "cache_ab =
     \<lparr>MaxEntries = 2, OnEvicted = True, ll = Some [1, 0], cache = Some [1 \<mapsto> 0, 2 \<mapsto> 1],
      elements = [0 \<mapsto> \<lparr>ekey = 1, evalue = 10\<rparr>, 1 \<mapsto> \<lparr>ekey = 2, evalue = 20\<rparr>],
      allocated = 2, evicted = [], observed = []\<rparr>"

section \<open>Properties of the ring\<close>

subsection \<open>Binary search\<close>

lemma Search_loop_correct:
  "(\<And>k. k < n \<Longrightarrow> f k = Inr (P k)) \<Longrightarrow> (\<And>a b. a \<le> b \<Longrightarrow> b < n \<Longrightarrow> P a \<Longrightarrow> P b) \<Longrightarrow>
    i \<le> j \<Longrightarrow> j \<le> n \<Longrightarrow> (\<forall>k<i. \<not> P k) \<Longrightarrow> (\<forall>k. j \<le> k \<and> k < n \<longrightarrow> P k) \<Longrightarrow>
    \<exists>r. Search_loop f i j = Inr r \<and> r \<le> n \<and> (\<forall>k<r. \<not> P k) \<and> (\<forall>k. r \<le> k \<and> k < n \<longrightarrow> P k)"
proof (induction f i j rule: Search_loop.induct)
  case (1 f i j)
  note mono = "1.prems"(2)
  show ?case
  proof (cases "i < j")
    case False
    with "1.prems" show ?thesis
      by (subst Search_loop.simps) auto
  next
    case True
    define h where "h = (i + j) div 2"
    have hb: "i \<le> h" "h < j" using True by (auto simp: h_def)
    then have hn: "h < n" using "1.prems" by simp
    have fh: "f h = Inr (P h)" using "1.prems"(1)[OF hn] .
    show ?thesis
    proof (cases "P h")
      case True
      have "\<exists>r. Search_loop f i h = Inr r \<and> r \<le> n \<and> (\<forall>k<r. \<not> P k) \<and> (\<forall>k. r \<le> k \<and> k < n \<longrightarrow> P k)"
        apply (rule "1.IH"(2)[OF \<open>i < j\<close> h_def fh])
        using True hb hn "1.prems" by auto
      then show ?thesis
        using \<open>i < j\<close> fh True by (subst Search_loop.simps) (simp add: h_def Let_def)
    next
      case False
      have nb: "\<forall>k<h + 1. \<not> P k"
        using False mono hn by (metis Suc_eq_plus1 less_Suc_eq_le)
      have "\<exists>r. Search_loop f (h + 1) j = Inr r \<and> r \<le> n \<and> (\<forall>k<r. \<not> P k) \<and> (\<forall>k. r \<le> k \<and> k < n \<longrightarrow> P k)"
        apply (rule "1.IH"(1)[OF \<open>i < j\<close> h_def fh])
        using False hb hn "1.prems" nb by auto
      then show ?thesis
        using \<open>i < j\<close> fh False by (subst Search_loop.simps) (simp add: h_def Let_def)
    qed
  qed
qed

subsection \<open>Add\<close>

lemma map_add_rev_Cons:
  "hm ++ map_of (rev ((h, node) # ps)) = hm(h \<mapsto> node) ++ map_of (rev ps)"
  by (rule ext) (simp add: map_add_def split: option.splits)

lemma Add_replicas_fixed [simp]:
  "hash (Add_replicas node i m) = hash m" "replicas (Add_replicas node i m) = replicas m"
proof (induction node i m rule: Add_replicas.induct)
  case (1 node i m)
  {
    case 1
    show ?case
      using "1.IH"(1) by (subst Add_replicas.simps) (simp add: Let_def)
  next
    case 2
    show ?case
      using "1.IH"(2) by (subst Add_replicas.simps) (simp add: Let_def)
  }
qed

lemma keys_Add_replicas:
  "keys (Add_replicas node i m) =
     keys m @ map (\<lambda>j. uint (hash m (Itoa j @ node))) [i..replicas m - 1]"
proof (induction node i m rule: Add_replicas.induct)
  case (1 node i m)
  show ?case
  proof (cases "i < replicas m")
    case False
    then show ?thesis by (subst Add_replicas.simps) simp
  next
    case True
    then have up: "[i..replicas m - 1] = i # [i + 1..replicas m - 1]"
      by (simp add: upto_rec1)
    show ?thesis
      by (subst Add_replicas.simps) (simp add: True "1.IH"[OF True refl] up Let_def)
  qed
qed

lemma hashMap_Add_replicas:
  "hashMap (Add_replicas node i m) =
     hashMap m ++ map_of (rev (map (\<lambda>j. (uint (hash m (Itoa j @ node)), node)) [i..replicas m - 1]))"
proof (induction node i m rule: Add_replicas.induct)
  case (1 node i m)
  show ?case
  proof (cases "i < replicas m")
    case False
    then show ?thesis by (subst Add_replicas.simps) simp
  next
    case True
    then have up: "[i..replicas m - 1] = i # [i + 1..replicas m - 1]"
      by (simp add: upto_rec1)
    show ?thesis
      apply (subst Add_replicas.simps)
      apply (simp only: True if_True Let_def "1.IH"[OF True refl] up list.map map_add_rev_Cons)
      apply (simp add: fun_upd_def)
      done
  qed
qed

lemma Add_nodes_fixed [simp]:
  "hash (Add_nodes nodes m) = hash m" "replicas (Add_nodes nodes m) = replicas m"
  by (induction nodes arbitrary: m) simp_all

lemma keys_Add_nodes:
  "keys (Add_nodes nodes m) = keys m @ map fst (placements (hash m) (replicas m) nodes)"
  by (induction nodes arbitrary: m)
    (simp_all add: placements_def replica_placements_def keys_Add_replicas comp_def)

lemma hashMap_Add_nodes:
  "hashMap (Add_nodes nodes m) = hashMap m ++ map_of (rev (placements (hash m) (replicas m) nodes))"
  by (induction nodes arbitrary: m)
    (simp_all add: placements_def replica_placements_def hashMap_Add_replicas)

lemma map_of_rev_last:
  "map_of (rev ps) p =
     (if filter (\<lambda>q. fst q = p) ps = [] then None
      else Some (snd (last (filter (\<lambda>q. fst q = p) ps))))"
  by (induction ps rule: rev_induct) auto

subsection \<open>Get\<close>

lemma ring_sorted: "ring m \<Longrightarrow> sorted (keys m)"
  by (induction rule: ring.induct) (simp_all add: consistenthash_New_def Map_Add_def Let_def)

lemma Map_Get_sorted:
  assumes s: "sorted (keys m)" and ne: "keys m \<noteq> []"
  shows "Map_Get key m = Inr (lookup (hashMap m)
           (if \<exists>q\<in>set (keys m). uint (hash m key) \<le> q
            then Min {q \<in> set (keys m). uint (hash m key) \<le> q}
            else hd (keys m)))"
proof -
  define h where "h = uint (hash m key)"
  define n where "n = length (keys m)"
  define f where "f = (\<lambda>i. case index (keys m) i of Inl p \<Rightarrow> Inl p | Inr x \<Rightarrow> Inr (h \<le> x))"
  have n0: "0 < n" using ne by (simp add: n_def)
  have get: "Map_Get key m =
      (case Search n f of
         Inl p \<Rightarrow> Inl p
       | Inr found \<Rightarrow>
           (case index (keys m) (if found = n then 0 else found) of
              Inl p \<Rightarrow> Inl p
            | Inr pos \<Rightarrow> Inr (lookup (hashMap m) pos)))"
    using ne unfolding Map_Get_def Map_IsEmpty_def Let_def h_def n_def f_def by simp
  have f: "\<And>k. k < n \<Longrightarrow> f k = Inr (h \<le> keys m ! k)"
    by (simp add: f_def index_def n_def)
  have mono: "\<And>a b. a \<le> b \<Longrightarrow> b < n \<Longrightarrow> h \<le> keys m ! a \<Longrightarrow> h \<le> keys m ! b"
    using s by (metis n_def order_trans sorted_nth_mono)
  have "\<exists>r. Search_loop f 0 n = Inr r \<and> r \<le> n \<and> (\<forall>k<r. \<not> h \<le> keys m ! k)
      \<and> (\<forall>k. r \<le> k \<and> k < n \<longrightarrow> h \<le> keys m ! k)"
    by (rule Search_loop_correct[where P = "\<lambda>k. h \<le> keys m ! k"]) (use f mono in auto)
  then obtain r where r: "Search n f = Inr r" "r \<le> n" "\<forall>k<r. \<not> h \<le> keys m ! k"
      "\<forall>k. r \<le> k \<and> k < n \<longrightarrow> h \<le> keys m ! k"
    by (auto simp: Search_def)
  show ?thesis
  proof (cases "r = n")
    case True
    then have "\<not> (\<exists>q\<in>set (keys m). h \<le> q)"
      using r(3) by (auto simp: in_set_conv_nth n_def)
    moreover have "keys m ! 0 = hd (keys m)"
      using ne by (simp add: hd_conv_nth)
    ultimately show ?thesis
      using r(1) True n0
      by (simp add: get index_def h_def[symmetric] n_def[symmetric])
  next
    case False
    then have rn: "r < n" using r(2) by simp
    have in_set: "keys m ! r \<in> {q \<in> set (keys m). h \<le> q}"
      using rn r(4) by (simp add: n_def)
    have least: "\<And>q. q \<in> {q \<in> set (keys m). h \<le> q} \<Longrightarrow> keys m ! r \<le> q"
    proof -
      fix q assume "q \<in> {q \<in> set (keys m). h \<le> q}"
      then obtain k where k: "k < n" "keys m ! k = q" "h \<le> q"
        by (auto simp: in_set_conv_nth n_def)
      then have "r \<le> k" using r(3) by (metis not_le_imp_less)
      then show "keys m ! r \<le> q" using s k by (metis n_def sorted_nth_mono)
    qed
    have "Min {q \<in> set (keys m). h \<le> q} = keys m ! r"
      by (rule Min_eqI) (use in_set least in auto)
    moreover have "\<exists>q\<in>set (keys m). h \<le> q" using in_set by auto
    ultimately show ?thesis
      using r(1) False rn
      by (simp add: get index_def h_def[symmetric] n_def[symmetric])
  qed
qed


lemma sorted_hd_Min: "sorted xs \<Longrightarrow> xs \<noteq> [] \<Longrightarrow> hd xs = Min (set xs)"
  by (cases xs) (auto intro!: Min_eqI[symmetric])

lemma ring_dom: "ring m \<Longrightarrow> dom (hashMap m) = set (keys m)"
proof (induction rule: ring.induct)
  case (ring_New ChecksumIEEE n fn)
  show ?case by (simp add: consistenthash_New_def)
next
  case (ring_Add m nodes)
  have "dom (map_of (rev (placements (hash m) (replicas m) nodes)))
      = fst ` set (placements (hash m) (replicas m) nodes)"
    by (simp add: dom_map_of_conv_image_fst)
  then show ?case
    using ring_Add.IH
    by (simp add: Map_Add_def Let_def keys_Add_nodes hashMap_Add_nodes Un_commute)
qed

lemma successor_in_keys:
  assumes "xs \<noteq> []"
  shows "(if \<exists>q\<in>set xs. (h::int) \<le> q then Min {q \<in> set xs. h \<le> q} else hd xs) \<in> set xs"
proof (cases "\<exists>q\<in>set xs. h \<le> q")
  case True
  then have "{q \<in> set xs. h \<le> q} \<noteq> {}" by auto
  then have "Min {q \<in> set xs. h \<le> q} \<in> {q \<in> set xs. h \<le> q}"
    by (intro Min_in) auto
  then show ?thesis using True by auto
next
  case False
  then show ?thesis using assms by simp
qed

subsection \<open>Specified behaviour of the ring\<close>

text \<open>
  C1. On a ring that holds at least one position, \<open>Get key\<close> returns the node that the
  map gives for the position \<open>p\<close>, where \<open>p\<close> is the smallest stored position that is at
  least \<open>hash key\<close>, and, when every stored position is below \<open>hash key\<close>, the first
  position of the sequence. The sequence is sorted ascending, so its first position is its
  smallest. The position \<open>p\<close> is one of the stored positions and the map has a node for it.
\<close>

theorem C1_Get_successor:
  assumes "ring m" and "\<not> Map_IsEmpty m"
  shows "let p = (if \<exists>q\<in>set (keys m). uint (hash m key) \<le> q
                  then Min {q \<in> set (keys m). uint (hash m key) \<le> q}
                  else hd (keys m))
         in sorted (keys m)
          \<and> Map_Get key m = Inr (lookup (hashMap m) p)
          \<and> hd (keys m) = Min (set (keys m))
          \<and> p \<in> set (keys m)
          \<and> (\<exists>node. hashMap m p = Some node \<and> Map_Get key m = Inr node)"
proof -
  define p where "p = (if \<exists>q\<in>set (keys m). uint (hash m key) \<le> q
                  then Min {q \<in> set (keys m). uint (hash m key) \<le> q}
                  else hd (keys m))"
  have s: "sorted (keys m)" using assms(1) by (rule ring_sorted)
  have ne: "keys m \<noteq> []" using assms(2) by (simp add: Map_IsEmpty_def)
  have g: "Map_Get key m = Inr (lookup (hashMap m) p)"
    unfolding p_def by (rule Map_Get_sorted[OF s ne])
  have mem: "p \<in> set (keys m)"
    unfolding p_def by (rule successor_in_keys[OF ne])
  then obtain node where node: "hashMap m p = Some node"
    using ring_dom[OF assms(1)] by auto
  then have "Map_Get key m = Inr node" using g by (simp add: lookup_def)
  then show ?thesis
    unfolding Let_def p_def[symmetric]
    using s g sorted_hd_Min[OF s ne] mem node by simp
qed

lemma ring_ab_keys: "keys ring_ab = [2, 4]"
  by code_simp

lemma ring_ab_hash: "uint (hash ring_ab ''xyz'') = 3"
  by code_simp

lemma ring_ab_lookup: "lookup (hashMap ring_ab) 4 = ''bbb''"
  by code_simp

theorem C1_Get_successor_witness:
  "ring ring_ab \<and> \<not> Map_IsEmpty ring_ab \<and> Map_Get ''xyz'' ring_ab = Inr ''bbb''"
proof -
  have r: "ring ring_ab"
    unfolding ring_ab_def by (rule ring_Add) (rule ring_New)
  have ne: "\<not> Map_IsEmpty ring_ab"
    by (simp add: Map_IsEmpty_def ring_ab_keys)
  have m: "{q. (q = 2 \<or> q = 4) \<and> 3 \<le> q} = {4::int}" by auto
  show ?thesis
    using r ne C1_Get_successor[OF r ne, of "''xyz''"]
    by (simp add: ring_ab_keys ring_ab_hash ring_ab_lookup m Let_def)
qed

text \<open>
  C4. \<open>Add nodes\<close> makes the placements \<open>ps\<close> of the supplied nodes: for each node, in the
  order supplied, and each replica index from 0 up to \<open>replicas - 1\<close>, the position
  \<open>hash (Itoa i @ node)\<close> paired with the node. Every position of \<open>ps\<close> is added to the
  position sequence, which is sorted ascending afterwards and holds nothing else new. The
  map gives for a position the node of the last placement at that position, so a later
  placement overwrites an earlier one at the same position, and is unchanged at every
  position that no placement hits. Hash function and replica count stay as they were.
\<close>

theorem C4_Add_placements:
  "let ps = placements (hash m) (replicas m) nodes; m' = Map_Add nodes m in
     keys m' = sort (keys m @ map fst ps)
     \<and> sorted (keys m')
     \<and> mset (keys m') = mset (keys m) + mset (map fst ps)
     \<and> (\<forall>p. hashMap m' p =
           (if filter (\<lambda>q. fst q = p) ps = [] then hashMap m p
            else Some (snd (last (filter (\<lambda>q. fst q = p) ps)))))
     \<and> hash m' = hash m \<and> replicas m' = replicas m"
  by (simp add: Map_Add_def keys_Add_nodes hashMap_Add_nodes Let_def map_add_def map_of_rev_last)

lemma collision_placements:
  "placements (hash (consistenthash_New length_hash 1 None))
     (replicas (consistenthash_New length_hash 1 None)) [''a'', ''b'']
   = [(2, ''a''), (2, ''b'')]"
  by code_simp

theorem C4_Add_placements_witness:
  "keys ring_collision = [2, 2] \<and> hashMap ring_collision 2 = Some ''b''
   \<and> hashMap ring_collision 3 = None"
  using C4_Add_placements[of "consistenthash_New length_hash 1 None" "[''a'', ''b'']"]
  unfolding collision_placements ring_collision_def [symmetric]
  by (simp add: Let_def consistenthash_New_def)

text \<open>
  C8. A freshly constructed ring is empty, and \<open>Get\<close> of any key on it returns the empty
  string as an ordinary result, not a panic.
\<close>

theorem C8_new_ring_empty:
  "Map_IsEmpty (consistenthash_New ChecksumIEEE n fn) = True
   \<and> Map_Get key (consistenthash_New ChecksumIEEE n fn) = Inr []"
  by (simp add: Map_IsEmpty_def Map_Get_def consistenthash_New_def)

section \<open>Properties of the cache\<close>

subsection \<open>Entries read through the element pointers\<close>

lemma entries_of_map:
  "\<forall>e\<in>set l. h e \<noteq> None \<Longrightarrow> entries_of h l = map (\<lambda>e. the (h e)) l"
  by (induction l) auto

lemma length_entries_of:
  "\<forall>e\<in>set l. h e \<noteq> None \<Longrightarrow> length (entries_of h l) = length l"
  by (simp add: entries_of_map)

lemma entries_of_upd_other:
  "e \<notin> set l \<Longrightarrow> entries_of (h(e \<mapsto> x)) l = entries_of h l"
  by (induction l) (auto split: option.splits)

lemma entries_of_filter_id:
  assumes "\<forall>e'\<in>set l. \<exists>kv'. h e' = Some kv' \<and> m (ekey kv') = Some e'"
    and "m k = Some e" and "e \<notin> set l"
  shows "filter (\<lambda>x. ekey x \<noteq> k) (entries_of h l) = entries_of h l"
  using assms by (induction l) auto

lemma entries_of_remove1:
  assumes "distinct l"
    and "\<forall>e'\<in>set l. \<exists>kv'. h e' = Some kv' \<and> m (ekey kv') = Some e'"
    and "e \<in> set l" and "h e = Some kv"
  shows "entries_of h (remove1 e l) = filter (\<lambda>x. ekey x \<noteq> ekey kv) (entries_of h l)"
  using assms
proof (induction l)
  case Nil
  then show ?case by simp
next
  case (Cons a l)
  show ?case
  proof (cases "a = e")
    case True
    have mk: "m (ekey kv) = Some e" using Cons.prems True by auto
    have "filter (\<lambda>x. ekey x \<noteq> ekey kv) (entries_of h l) = entries_of h l"
      by (rule entries_of_filter_id[where m = m and e = e]) (use Cons.prems True mk in auto)
    then show ?thesis using True Cons.prems by simp
  next
    case False
    then have "e \<in> set l" using Cons.prems by simp
    moreover obtain kva where kva: "h a = Some kva" "m (ekey kva) = Some a"
      using Cons.prems by auto
    moreover have "m (ekey kv) = Some e" using Cons.prems by auto
    ultimately show ?thesis
      using False Cons by auto
  qed
qed

lemma entries_of_keys:
  assumes "\<forall>e\<in>set l. h e \<noteq> None"
  shows "set (map ekey (entries_of h l)) = (\<lambda>e. ekey (the (h e))) ` set l"
  using assms by (simp add: entries_of_map image_image)

lemma entries_of_distinct:
  assumes "distinct l"
    and "\<forall>e\<in>set l. \<exists>kv. h e = Some kv \<and> m (ekey kv) = Some e"
  shows "distinct (map ekey (entries_of h l))"
  using assms
proof (induction l)
  case Nil
  then show ?case by simp
next
  case (Cons a l)
  obtain kva where kva: "h a = Some kva" "m (ekey kva) = Some a"
    using Cons.prems by auto
  have "ekey kva \<notin> set (map ekey (entries_of h l))"
  proof
    assume "ekey kva \<in> set (map ekey (entries_of h l))"
    moreover have "\<forall>e\<in>set l. h e \<noteq> None" using Cons.prems by auto
    ultimately obtain e where "e \<in> set l" "ekey (the (h e)) = ekey kva"
      using entries_of_keys[of l h] by auto
    moreover from this obtain kv where "h e = Some kv" "m (ekey kv) = Some e"
      using Cons.prems by auto
    ultimately have "e \<in> set l" "h e = Some kv" "ekey kv = ekey kva" by auto
    then have "m (ekey kva) = Some e" using Cons.prems by auto
    then show False using kva \<open>e \<in> set l\<close> Cons.prems by auto
  qed
  then show ?case using Cons kva by simp
qed

lemma entries_of_butlast:
  "\<forall>e\<in>set l. h e \<noteq> None \<Longrightarrow> entries_of h (butlast l) = butlast (entries_of h l)"
  by (simp add: entries_of_map map_butlast in_set_butlastD)

lemma entries_of_last:
  "\<forall>e\<in>set l. h e \<noteq> None \<Longrightarrow> l \<noteq> [] \<Longrightarrow> h (last l) = Some (last (entries_of h l))"
  by (simp add: entries_of_map last_map)

lemma remove1_last: "distinct l \<Longrightarrow> l \<noteq> [] \<Longrightarrow> remove1 (last l) l = butlast l"
  by (induction l) (auto simp: remove1_idem)

subsection \<open>The representation invariant and the observable view\<close>

lemma wf_nil: "ll c = None \<Longrightarrow> cache c = None \<Longrightarrow> wf c"
  by (simp add: wf_def)

lemma wf_SomeI:
  "ll c = Some l \<Longrightarrow> cache c = Some m \<Longrightarrow> distinct l \<Longrightarrow>
   (\<And>e. e \<in> set l \<Longrightarrow> e < allocated c \<and> (\<exists>kv. elements c e = Some kv \<and> m (ekey kv) = Some e)) \<Longrightarrow>
   (\<And>k e. m k = Some e \<Longrightarrow> e \<in> set l \<and> (\<exists>kv. elements c e = Some kv \<and> ekey kv = k)) \<Longrightarrow>
   wf c"
  by (simp add: wf_def)

lemma wf_cases:
  assumes "wf c"
  obtains (nil) "ll c = None" "cache c = None"
  | (alloc) l m where "ll c = Some l" "cache c = Some m" "distinct l"
      "\<forall>e\<in>set l. e < allocated c \<and> (\<exists>kv. elements c e = Some kv \<and> m (ekey kv) = Some e)"
      "\<forall>k e. m k = Some e \<longrightarrow> e \<in> set l \<and> (\<exists>kv. elements c e = Some kv \<and> ekey kv = k)"
  using assms by (auto simp: wf_def split: option.splits)

lemma wf_SomeD:
  assumes "wf c" "ll c = Some l" "cache c = Some m"
  shows "distinct l"
    "\<forall>e\<in>set l. e < allocated c \<and> (\<exists>kv. elements c e = Some kv \<and> m (ekey kv) = Some e)"
    "\<forall>k e. m k = Some e \<longrightarrow> e \<in> set l \<and> (\<exists>kv. elements c e = Some kv \<and> ekey kv = k)"
  using assms by (auto simp: wf_def split: option.splits)

lemma linked_weaken:
  "\<forall>e\<in>set l. e < a \<and> (\<exists>kv. h e = Some kv \<and> m (ekey kv) = Some e) \<Longrightarrow>
   \<forall>e\<in>set l. \<exists>kv. h e = Some kv \<and> m (ekey kv) = Some e"
  by blast

lemma linked_Some:
  "\<forall>e\<in>set l. e < a \<and> (\<exists>kv. h e = Some kv \<and> m (ekey kv) = Some e) \<Longrightarrow>
   \<forall>e\<in>set l. h e \<noteq> None"
  by auto

lemma OnEvicted_call_simps [simp]:
  "ll (OnEvicted_call k v c) = ll c"
  "cache (OnEvicted_call k v c) = cache c"
  "elements (OnEvicted_call k v c) = elements c"
  "allocated (OnEvicted_call k v c) = allocated c"
  "MaxEntries (OnEvicted_call k v c) = MaxEntries c"
  "OnEvicted (OnEvicted_call k v c) = OnEvicted c"
  "evicted (OnEvicted_call k v c) = evicted c @ [(k, v)]"
  "observed (OnEvicted_call k v c) = observed c @ [(cache c, ll c)]"
  by (simp_all add: OnEvicted_call_def)

lemma OnEvicted_call_views [simp]:
  "wf (OnEvicted_call k v c) = wf c"
  "recency (OnEvicted_call k v c) = recency c"
  "the_map (OnEvicted_call k v c) = the_map c"
  "the_list (OnEvicted_call k v c) = the_list c"
  by (simp_all add: wf_def recency_def the_map_def the_list_def cong: option.case_cong)

lemma wf_length: "wf c \<Longrightarrow> length (recency c) = length (the_list c)"
  by (erule wf_cases)
    (auto simp: recency_def the_list_def intro!: length_entries_of)

lemma wf_keys_distinct: "wf c \<Longrightarrow> distinct (map ekey (recency c))"
proof (erule wf_cases)
  fix l m
  assume "ll c = Some l" "cache c = Some m" "distinct l"
    "\<forall>e\<in>set l. e < allocated c \<and> (\<exists>kv. elements c e = Some kv \<and> m (ekey kv) = Some e)"
  then show ?thesis
    using entries_of_distinct[of l "elements c" m]
    by (simp add: recency_def the_list_def linked_weaken)
qed (simp add: recency_def the_list_def)

lemma wf_keys_dom: "wf c \<Longrightarrow> set (map ekey (recency c)) = dom (the_map c)"
proof (erule wf_cases)
  fix l m
  assume a: "ll c = Some l" "cache c = Some m" "distinct l"
    "\<forall>e\<in>set l. e < allocated c \<and> (\<exists>kv. elements c e = Some kv \<and> m (ekey kv) = Some e)"
    "\<forall>k e. m k = Some e \<longrightarrow> e \<in> set l \<and> (\<exists>kv. elements c e = Some kv \<and> ekey kv = k)"
  have some: "\<forall>e\<in>set l. elements c e \<noteq> None" using a(4) by auto
  have "(\<lambda>e. ekey (the (elements c e))) ` set l = dom m"
  proof (intro set_eqI iffI)
    fix k assume "k \<in> (\<lambda>e. ekey (the (elements c e))) ` set l"
    then show "k \<in> dom m" using a(4) by force
  next
    fix k assume "k \<in> dom m"
    then obtain e where "m k = Some e" by auto
    then obtain kv where "e \<in> set l" "elements c e = Some kv" "ekey kv = k"
      using a(5) by blast
    then have "e \<in> set l" "ekey (the (elements c e)) = k" by auto
    then show "k \<in> (\<lambda>e. ekey (the (elements c e))) ` set l" by auto
  qed
  then show ?thesis
    using entries_of_keys[OF some] a(1,2) by (simp add: recency_def the_list_def the_map_def)
qed (simp add: recency_def the_list_def the_map_def)

lemma wf_lookup:
  assumes "wf c" "the_map c k = Some e"
  shows "\<exists>l m kv. ll c = Some l \<and> cache c = Some m \<and> m k = Some e \<and> e \<in> set l
           \<and> elements c e = Some kv \<and> ekey kv = k \<and> kv \<in> set (recency c)"
  using assms(1)
proof (cases rule: wf_cases)
  case nil
  then show ?thesis using assms(2) by (simp add: the_map_def)
next
  case (alloc l m)
  then have mk: "m k = Some e" using assms(2) by (simp add: the_map_def)
  then obtain kv where kv: "e \<in> set l" "elements c e = Some kv" "ekey kv = k"
    using alloc(5) by blast
  have "\<forall>e\<in>set l. elements c e \<noteq> None" using alloc(4) by auto
  then have "recency c = map (\<lambda>e. the (elements c e)) l"
    using alloc(1) by (simp add: recency_def the_list_def entries_of_map)
  then have "kv \<in> set (recency c)" using kv by force
  then show ?thesis using alloc mk kv by simp
qed
lemma wf_index_entry:
  assumes wf: "wf c" and x: "x \<in> set (recency c)"
  shows "\<exists>e. the_map c (ekey x) = Some e \<and> elements c e = Some x"
proof -
  have "ekey x \<in> dom (the_map c)" using wf_keys_dom[OF wf] x by auto
  then obtain e where e: "the_map c (ekey x) = Some e" by auto
  obtain kv where kv: "elements c e = Some kv" "ekey kv = ekey x" "kv \<in> set (recency c)"
    using wf_lookup[OF wf e] by blast
  have "inj_on ekey (set (recency c))"
    using wf_keys_distinct[OF wf] by (simp add: distinct_map)
  then have "kv = x" using kv x by (auto dest: inj_onD)
  then show ?thesis using e kv by auto
qed

subsection \<open>The operations on a well-formed cache\<close>

lemma removeElement_wf:
  assumes wf: "wf c" and l: "ll c = Some l" and m: "cache c = Some m"
    and e: "e \<in> set l" and kv: "elements c e = Some kv"
  shows "\<exists>d. Cache_removeElement e c =
             Inr (if OnEvicted c then OnEvicted_call (ekey kv) (evalue kv) d else d)
      \<and> wf d \<and> recency d = filter (\<lambda>x. ekey x \<noteq> ekey kv) (recency c)
      \<and> the_map d = (the_map c)(ekey kv := None)
      \<and> the_list d = remove1 e l
      \<and> evicted d = evicted c \<and> MaxEntries d = MaxEntries c \<and> OnEvicted d = OnEvicted c
      \<and> cache d \<noteq> None \<and> elements d = elements c \<and> observed d = observed c"
proof -
  define d where "d = c\<lparr>ll := Some (remove1 e l), cache := Some (m(ekey kv := None))\<rparr>"
  note D = wf_SomeD[OF wf l m]
  have mk: "m (ekey kv) = Some e" using D(2) e kv by auto
  have run: "Cache_removeElement e c =
      Inr (if OnEvicted c then OnEvicted_call (ekey kv) (evalue kv) d else d)"
    by (simp add: Cache_removeElement_def l m kv d_def list_Remove_def Let_def)
  have wfd: "wf d"
  proof (rule wf_SomeI)
    show "ll d = Some (remove1 e l)" by (simp add: d_def)
    show "cache d = Some (m(ekey kv := None))" by (simp add: d_def)
    show "distinct (remove1 e l)" using D(1) by simp
  next
    fix e' assume "e' \<in> set (remove1 e l)"
    then have e': "e' \<in> set l" "e' \<noteq> e" using D(1) by auto
    then obtain kv' where kv': "e' < allocated c" "elements c e' = Some kv'" "m (ekey kv') = Some e'"
      using D(2) by blast
    then have "ekey kv' \<noteq> ekey kv" using mk e' by auto
    then show "e' < allocated d \<and> (\<exists>x. elements d e' = Some x \<and> (m(ekey kv := None)) (ekey x) = Some e')"
      using kv' by (auto simp: d_def)
  next
    fix k e' assume "(m(ekey kv := None)) k = Some e'"
    then have k: "k \<noteq> ekey kv" "m k = Some e'" by (auto split: if_splits)
    then obtain kv' where kv': "e' \<in> set l" "elements c e' = Some kv'" "ekey kv' = k"
      using D(3) by blast
    then have "e' \<noteq> e" using kv k by auto
    then show "e' \<in> set (remove1 e l) \<and> (\<exists>x. elements d e' = Some x \<and> ekey x = k)"
      using kv' D(1) by (auto simp: d_def)
  qed
  have rec: "recency d = filter (\<lambda>x. ekey x \<noteq> ekey kv) (recency c)"
    using entries_of_remove1[OF D(1) linked_weaken[OF D(2)] e kv]
    by (simp add: recency_def the_list_def d_def l)
  show ?thesis
    using run wfd rec by (intro exI[of _ d]) (simp add: d_def the_map_def the_list_def m)
qed

lemma RemoveOldest_empty:
  assumes "wf c" "recency c = []"
  shows "Cache_RemoveOldest c = Inr c"
  using assms(1)
proof (cases rule: wf_cases)
  case nil
  then show ?thesis by (simp add: Cache_RemoveOldest_def)
next
  case (alloc l m)
  have "length l = 0"
    using wf_length[OF assms(1)] assms(2) alloc(1) by (simp add: the_list_def)
  then show ?thesis
    using alloc by (simp add: Cache_RemoveOldest_def list_Back_def)
qed

lemma RemoveOldest_wf:
  assumes wf: "wf c" and ne: "recency c \<noteq> []"
  shows "\<exists>d. Cache_RemoveOldest c =
             Inr (if OnEvicted c
                  then OnEvicted_call (ekey (last (recency c))) (evalue (last (recency c))) d
                  else d)
      \<and> wf d \<and> recency d = butlast (recency c)
      \<and> the_map d = (the_map c)(ekey (last (recency c)) := None)
      \<and> evicted d = evicted c \<and> MaxEntries d = MaxEntries c \<and> OnEvicted d = OnEvicted c
      \<and> cache d \<noteq> None \<and> elements d = elements c \<and> observed d = observed c"
  using wf
proof (cases rule: wf_cases)
  case nil
  then show ?thesis using ne by (simp add: recency_def the_list_def)
next
  case (alloc l m)
  have some: "\<forall>e\<in>set l. elements c e \<noteq> None" using alloc(4) by auto
  have rc: "recency c = entries_of (elements c) l"
    using alloc(1) by (simp add: recency_def the_list_def)
  have lne: "l \<noteq> []" using ne rc by auto
  define kv where "kv = last (recency c)"
  have kv: "elements c (last l) = Some kv"
    using entries_of_last[OF some lne] by (simp add: kv_def rc)
  have lb: "list_Back l = Some (last l)"
    using lne by (cases l) (simp_all add: list_Back_def)
  obtain d where d: "Cache_removeElement (last l) c =
             Inr (if OnEvicted c then OnEvicted_call (ekey kv) (evalue kv) d else d)"
      "wf d" "recency d = filter (\<lambda>x. ekey x \<noteq> ekey kv) (recency c)"
      "the_map d = (the_map c)(ekey kv := None)" "the_list d = remove1 (last l) l"
      "evicted d = evicted c" "MaxEntries d = MaxEntries c" "OnEvicted d = OnEvicted c"
      "cache d \<noteq> None" "elements d = elements c" "observed d = observed c"
    using removeElement_wf[OF wf alloc(1,2) _ kv] lne by auto
  have "ll d \<noteq> None" using d(2,9) by (auto simp: wf_def split: option.splits)
  then have "recency d = entries_of (elements d) (remove1 (last l) l)"
    using d(5) by (simp add: recency_def)
  have "recency d = butlast (recency c)"
  proof -
    have "entries_of (elements c) (remove1 (last l) l) = butlast (entries_of (elements c) l)"
      using remove1_last[OF alloc(3) lne] entries_of_butlast[OF some] by simp
    moreover have "filter (\<lambda>x. ekey x \<noteq> ekey kv) (recency c)
        = entries_of (elements c) (remove1 (last l) l)"
      using entries_of_remove1[OF alloc(3) linked_weaken[OF alloc(4)] _ kv] lne rc by simp
    ultimately show ?thesis using d(3) rc by simp
  qed
  then show ?thesis
    using d alloc lb
    by (intro exI[of _ d]) (simp add: Cache_RemoveOldest_def kv_def)
qed

lemma Remove_absent:
  "the_map c k = None \<Longrightarrow> Cache_Remove k c = Inr c"
  by (cases "cache c") (simp_all add: Cache_Remove_def the_map_def)

lemma Remove_present:
  assumes wf: "wf c" and k: "the_map c k = Some e"
  shows "\<exists>kv d. kv \<in> set (recency c) \<and> ekey kv = k
      \<and> Cache_Remove k c = Inr (if OnEvicted c then OnEvicted_call k (evalue kv) d else d)
      \<and> wf d \<and> recency d = filter (\<lambda>x. ekey x \<noteq> k) (recency c)
      \<and> the_map d = (the_map c)(k := None)
      \<and> evicted d = evicted c \<and> MaxEntries d = MaxEntries c \<and> OnEvicted d = OnEvicted c
      \<and> cache d \<noteq> None \<and> elements d = elements c \<and> observed d = observed c"
proof -
  obtain l m kv where a: "ll c = Some l" "cache c = Some m" "m k = Some e" "e \<in> set l"
      "elements c e = Some kv" "ekey kv = k" "kv \<in> set (recency c)"
    using wf_lookup[OF wf k] by blast
  obtain d where d: "Cache_removeElement e c =
             Inr (if OnEvicted c then OnEvicted_call (ekey kv) (evalue kv) d else d)"
      "wf d" "recency d = filter (\<lambda>x. ekey x \<noteq> ekey kv) (recency c)"
      "the_map d = (the_map c)(ekey kv := None)"
      "evicted d = evicted c" "MaxEntries d = MaxEntries c" "OnEvicted d = OnEvicted c"
      "cache d \<noteq> None" "elements d = elements c" "observed d = observed c"
    using removeElement_wf[OF wf a(1,2,4,5)] by auto
  show ?thesis
    using a d by (intro exI[of _ kv] exI[of _ d]) (simp add: Cache_Remove_def)
qed

text \<open>
  What a callback sees when it is called on a detached state: a map without the key and a
  list with no entry for the key.
\<close>

lemma detached_view:
  assumes wf: "wf d" and k: "the_map d k = None" and c: "cache d \<noteq> None"
    and el: "elements d = elements c"
  shows "\<exists>ms ls. cache d = Some ms \<and> ll d = Some ls \<and> ms k = None
           \<and> k \<notin> ekey ` set (entries_of (elements c) ls)"
  using wf
proof (cases rule: wf_cases)
  case nil
  then show ?thesis using c by simp
next
  case (alloc ls ms)
  have "k \<notin> dom (the_map d)" using k by auto
  then have "k \<notin> set (map ekey (recency d))" using wf_keys_dom[OF wf] by simp
  then have "k \<notin> ekey ` set (entries_of (elements c) ls)"
    using alloc(1) el by (simp add: recency_def the_list_def)
  moreover have "ms k = None" using k alloc(2) by (simp add: the_map_def)
  ultimately show ?thesis using alloc(1,2) by simp
qed

text \<open>
  A call made before the detaching would be told apart: it records a map that still has
  an element for the key.
\<close>

lemma undetached_view:
  assumes "cache c = Some m" and "m k = Some e"
  shows "last (observed (OnEvicted_call k v c)) = (Some m, ll c) \<and> m k \<noteq> None"
  using assms by simp

lemma Get_absent:
  "the_map c k = None \<Longrightarrow> Cache_Get k c = Inr ((None, False), c)"
  by (cases "cache c") (simp_all add: Cache_Get_def the_map_def)

lemma MoveToFront_entries:
  assumes d: "distinct l" and lk: "\<forall>e'\<in>set l. \<exists>kv'. h e' = Some kv' \<and> m (ekey kv') = Some e'"
    and e: "e \<in> set l" and kv: "h e = Some kv" and k': "ekey kv' = ekey kv"
  shows "entries_of (h(e \<mapsto> kv')) (list_MoveToFront e l)
           = kv' # filter (\<lambda>x. ekey x \<noteq> ekey kv) (entries_of h l)"
proof -
  have "e \<notin> set (remove1 e l)" using d by simp
  then have "entries_of (h(e \<mapsto> kv')) (remove1 e l) = entries_of h (remove1 e l)"
    by (rule entries_of_upd_other)
  then show ?thesis
    using e entries_of_remove1[OF d lk e kv] by (simp add: list_MoveToFront_def)
qed

lemma wf_MoveToFront:
  assumes wf: "wf c" and l: "ll c = Some l" and m: "cache c = Some m"
    and e: "e \<in> set l" and kv: "elements c e = Some kv" and k': "ekey kv' = ekey kv"
  shows "wf (c\<lparr>ll := Some (list_MoveToFront e l), elements := (elements c)(e \<mapsto> kv')\<rparr>)"
proof (rule wf_SomeI)
  note D = wf_SomeD[OF wf l m]
  let ?d = "c\<lparr>ll := Some (list_MoveToFront e l), elements := (elements c)(e \<mapsto> kv')\<rparr>"
  show "ll ?d = Some (list_MoveToFront e l)" by simp
  show "cache ?d = Some m" using m by simp
  show "distinct (list_MoveToFront e l)" using D(1) e by (simp add: list_MoveToFront_def)
  have mk: "m (ekey kv) = Some e" using D(2) e kv by auto
  have s: "set (list_MoveToFront e l) = set l"
    using e D(1) by (auto simp: list_MoveToFront_def)
  show "e' < allocated ?d \<and> (\<exists>x. elements ?d e' = Some x \<and> m (ekey x) = Some e')"
    if "e' \<in> set (list_MoveToFront e l)" for e'
    using that D(2) mk k' unfolding s by (cases "e' = e") auto
  show "e' \<in> set (list_MoveToFront e l) \<and> (\<exists>x. elements ?d e' = Some x \<and> ekey x = k)"
    if mk': "m k = Some e'" for k e'
  proof -
    obtain kv0 where "e' \<in> set l" "elements c e' = Some kv0" "ekey kv0 = k"
      using mk' D(3) by blast
    then show ?thesis using kv k' unfolding s by (cases "e' = e") auto
  qed
qed

lemma Get_present:
  assumes wf: "wf c" and k: "the_map c k = Some e"
  shows "\<exists>kv c'. kv \<in> set (recency c) \<and> ekey kv = k
      \<and> Cache_Get k c = Inr ((Some (evalue kv), True), c')
      \<and> wf c' \<and> recency c' = kv # filter (\<lambda>x. ekey x \<noteq> k) (recency c)
      \<and> the_map c' = the_map c
      \<and> evicted c' = evicted c \<and> MaxEntries c' = MaxEntries c \<and> OnEvicted c' = OnEvicted c"
proof -
  obtain l m kv where a: "ll c = Some l" "cache c = Some m" "m k = Some e" "e \<in> set l"
      "elements c e = Some kv" "ekey kv = k" "kv \<in> set (recency c)"
    using wf_lookup[OF wf k] by blast
  note D = wf_SomeD[OF wf a(1,2)]
  define c' where "c' = c\<lparr>ll := Some (list_MoveToFront e l)\<rparr>"
  have same: "(elements c)(e \<mapsto> kv) = elements c"
    using a(5) by (simp add: fun_upd_idem)
  have "wf (c\<lparr>ll := Some (list_MoveToFront e l), elements := (elements c)(e \<mapsto> kv)\<rparr>)"
    by (rule wf_MoveToFront[OF wf a(1,2,4,5)]) simp
  then have wf': "wf c'" by (simp add: same c'_def)
  have "entries_of ((elements c)(e \<mapsto> kv)) (list_MoveToFront e l)
           = kv # filter (\<lambda>x. ekey x \<noteq> ekey kv) (entries_of (elements c) l)"
    by (rule MoveToFront_entries[OF D(1) linked_weaken[OF D(2)] a(4,5)]) simp
  then have rec: "recency c' = kv # filter (\<lambda>x. ekey x \<noteq> k) (recency c)"
    using a(1,6) by (simp add: same recency_def the_list_def c'_def)
  have run: "Cache_Get k c = Inr ((Some (evalue kv), True), c')"
    using a by (simp add: Cache_Get_def c'_def)
  show ?thesis
    using a(6,7) run wf' rec
    by (intro exI[of _ kv] exI[of _ c']) (simp add: c'_def the_map_def)
qed

lemma Add_present:
  assumes wf: "wf c" and k: "the_map c k = Some e"
  shows "\<exists>c'. Cache_Add k v c = Inr c'
      \<and> wf c' \<and> recency c' = \<lparr>ekey = k, evalue = v\<rparr> # filter (\<lambda>x. ekey x \<noteq> k) (recency c)
      \<and> the_map c' = the_map c
      \<and> evicted c' = evicted c \<and> MaxEntries c' = MaxEntries c \<and> OnEvicted c' = OnEvicted c"
proof -
  obtain l m kv where a: "ll c = Some l" "cache c = Some m" "m k = Some e" "e \<in> set l"
      "elements c e = Some kv" "ekey kv = k" "kv \<in> set (recency c)"
    using wf_lookup[OF wf k] by blast
  note D = wf_SomeD[OF wf a(1,2)]
  define kv' where "kv' = kv\<lparr>evalue := v\<rparr>"
  have kv': "kv' = \<lparr>ekey = k, evalue = v\<rparr>" "ekey kv' = ekey kv"
    using a(6) by (simp_all add: kv'_def)
  define c' where
    "c' = c\<lparr>ll := Some (list_MoveToFront e l), elements := (elements c)(e \<mapsto> kv')\<rparr>"
  have wf': "wf c'"
    unfolding c'_def by (rule wf_MoveToFront[OF wf a(1,2,4,5) kv'(2)])
  have "entries_of ((elements c)(e \<mapsto> kv')) (list_MoveToFront e l)
           = kv' # filter (\<lambda>x. ekey x \<noteq> ekey kv) (entries_of (elements c) l)"
    by (rule MoveToFront_entries[OF D(1) linked_weaken[OF D(2)] a(4,5) kv'(2)])
  then have rec: "recency c' = \<lparr>ekey = k, evalue = v\<rparr> # filter (\<lambda>x. ekey x \<noteq> k) (recency c)"
    using a(1,6) kv'(1) by (simp add: recency_def the_list_def c'_def)
  have run: "Cache_Add k v c = Inr c'"
    using a by (simp add: Cache_Add_def c'_def kv'_def)
  show ?thesis
    using run wf' rec by (intro exI[of _ c']) (simp add: c'_def the_map_def)
qed

lemma Add_nil:
  "cache c = None \<Longrightarrow>
   Cache_Add k v c = Cache_Add k v (c\<lparr>cache := Some Map.empty, ll := Some []\<rparr>)"
  by (simp add: Cache_Add_def)

lemma Add_push:
  assumes wf: "wf c" and l: "ll c = Some l" and m: "cache c = Some m" and k: "m k = None"
  shows "\<exists>c1. Cache_Add k v c =
           (if MaxEntries c \<noteq> 0 \<and> int (length (recency c)) + 1 > MaxEntries c
            then Cache_RemoveOldest c1 else Inr c1)
      \<and> wf c1 \<and> recency c1 = \<lparr>ekey = k, evalue = v\<rparr> # recency c
      \<and> evicted c1 = evicted c \<and> MaxEntries c1 = MaxEntries c \<and> OnEvicted c1 = OnEvicted c"
proof -
  note D = wf_SomeD[OF wf l m]
  define a where "a = allocated c"
  define c1 where "c1 = c\<lparr>ll := Some (a # l),
      elements := (elements c)(a \<mapsto> \<lparr>ekey = k, evalue = v\<rparr>),
      allocated := Suc a, cache := Some (m(k \<mapsto> a))\<rparr>"
  have fresh: "a \<notin> set l" using D(2) by (auto simp: a_def)
  have len: "length (recency c) = length l"
    using wf_length[OF wf] l by (simp add: the_list_def)
  have run: "Cache_Add k v c =
           (if MaxEntries c \<noteq> 0 \<and> int (length (recency c)) + 1 > MaxEntries c
            then Cache_RemoveOldest c1 else Inr c1)"
    using l m k by (simp add: Cache_Add_def Let_def c1_def a_def list_Len_def len)
  have wf1: "wf c1"
  proof (rule wf_SomeI)
    show "ll c1 = Some (a # l)" by (simp add: c1_def)
    show "cache c1 = Some (m(k \<mapsto> a))" by (simp add: c1_def)
    show "distinct (a # l)" using D(1) fresh by simp
    show "e < allocated c1 \<and> (\<exists>x. elements c1 e = Some x \<and> (m(k \<mapsto> a)) (ekey x) = Some e)"
      if e: "e \<in> set (a # l)" for e
    proof (cases "e = a")
      case True
      then show ?thesis by (simp add: c1_def)
    next
      case False
      then have el: "e \<in> set l" using e by simp
      then obtain x where x: "e < allocated c" "elements c e = Some x" "m (ekey x) = Some e"
        using D(2) by blast
      then have "ekey x \<noteq> k" using k by auto
      then show ?thesis using x False by (simp add: c1_def a_def)
    qed
    show "e \<in> set (a # l) \<and> (\<exists>x. elements c1 e = Some x \<and> ekey x = k')"
      if mk: "(m(k \<mapsto> a)) k' = Some e" for k' e
    proof (cases "k' = k")
      case True
      then show ?thesis using mk by (simp add: c1_def)
    next
      case False
      then have "m k' = Some e" using mk by simp
      then obtain x where x: "e \<in> set l" "elements c e = Some x" "ekey x = k'"
        using D(3) by blast
      then have "e \<noteq> a" using fresh by auto
      then show ?thesis using x by (simp add: c1_def)
    qed
  qed
  have "entries_of ((elements c)(a \<mapsto> \<lparr>ekey = k, evalue = v\<rparr>)) l = entries_of (elements c) l"
    by (rule entries_of_upd_other[OF fresh])
  then have rec: "recency c1 = \<lparr>ekey = k, evalue = v\<rparr> # recency c"
    using l by (simp add: recency_def the_list_def c1_def)
  show ?thesis
    using run wf1 rec by (intro exI[of _ c1]) (simp add: c1_def)
qed

lemma wf_init:
  "wf (c\<lparr>cache := Some Map.empty, ll := Some []\<rparr>)"
  by (simp add: wf_def)

lemma Add_absent_push:
  assumes wf: "wf c" and k: "the_map c k = None"
  shows "\<exists>c1. Cache_Add k v c =
           (if MaxEntries c \<noteq> 0 \<and> int (length (recency c)) + 1 > MaxEntries c
            then Cache_RemoveOldest c1 else Inr c1)
      \<and> wf c1 \<and> recency c1 = \<lparr>ekey = k, evalue = v\<rparr> # recency c
      \<and> evicted c1 = evicted c \<and> MaxEntries c1 = MaxEntries c \<and> OnEvicted c1 = OnEvicted c"
  using wf
proof (cases rule: wf_cases)
  case nil
  let ?c = "c\<lparr>cache := Some Map.empty, ll := Some []\<rparr>"
  have r: "recency ?c = recency c"
    using nil by (simp add: recency_def the_list_def)
  show ?thesis
    using Add_push[OF wf_init, of c "[]" Map.empty k v] Add_nil[OF nil(2), of k v]
    by (simp add: r)
next
  case (alloc l m)
  then have "m k = None" using k by (simp add: the_map_def)
  then show ?thesis using Add_push[OF wf alloc(1,2)] by simp
qed

lemma Add_absent:
  assumes wf: "wf c" and k: "the_map c k = None"
  shows "\<exists>c'. Cache_Add k v c = Inr c' \<and> wf c'
      \<and> MaxEntries c' = MaxEntries c \<and> OnEvicted c' = OnEvicted c
      \<and> (if MaxEntries c \<noteq> 0 \<and> int (length (recency c)) + 1 > MaxEntries c
         then recency c' = butlast (\<lparr>ekey = k, evalue = v\<rparr> # recency c)
            \<and> evicted c' =
                (if OnEvicted c
                 then evicted c @ [(ekey (last (\<lparr>ekey = k, evalue = v\<rparr> # recency c)),
                                    evalue (last (\<lparr>ekey = k, evalue = v\<rparr> # recency c)))]
                 else evicted c)
         else recency c' = \<lparr>ekey = k, evalue = v\<rparr> # recency c \<and> evicted c' = evicted c)"
proof -
  obtain c1 where c1: "Cache_Add k v c =
           (if MaxEntries c \<noteq> 0 \<and> int (length (recency c)) + 1 > MaxEntries c
            then Cache_RemoveOldest c1 else Inr c1)"
      "wf c1" "recency c1 = \<lparr>ekey = k, evalue = v\<rparr> # recency c"
      "evicted c1 = evicted c" "MaxEntries c1 = MaxEntries c" "OnEvicted c1 = OnEvicted c"
    using Add_absent_push[OF wf k] by blast
  show ?thesis
  proof (cases "MaxEntries c \<noteq> 0 \<and> int (length (recency c)) + 1 > MaxEntries c")
    case False
    then show ?thesis using c1 by auto
  next
    case True
    have ne: "recency c1 \<noteq> []" using c1(3) by simp
    obtain d where d: "Cache_RemoveOldest c1 =
             Inr (if OnEvicted c1
                  then OnEvicted_call (ekey (last (recency c1))) (evalue (last (recency c1))) d
                  else d)"
        "wf d" "recency d = butlast (recency c1)"
        "evicted d = evicted c1" "MaxEntries d = MaxEntries c1" "OnEvicted d = OnEvicted c1"
      using RemoveOldest_wf[OF c1(2) ne] by blast
    show ?thesis
      using True c1 d
      by (intro exI[of _ "if OnEvicted c1
                  then OnEvicted_call (ekey (last (recency c1))) (evalue (last (recency c1))) d
                  else d"]) (simp del: butlast.simps last.simps)
  qed
qed

lemma wf_card: "wf c \<Longrightarrow> length (recency c) = card (dom (the_map c))"
  using wf_keys_dom[of c] wf_keys_distinct[of c]
  by (metis distinct_card length_map)

lemma wf_absent_recency:
  "wf c \<Longrightarrow> recency c = [] \<Longrightarrow> the_map c k = None"
  using wf_keys_dom[of c] by auto

lemma Len_wf: "wf c \<Longrightarrow> Cache_Len c = Inr (int (length (recency c)))"
  by (erule wf_cases)
    (simp_all add: Cache_Len_def list_Len_def recency_def the_list_def length_entries_of linked_Some)

lemma wf_range_order: "wf c \<Longrightarrow> range_order (map ekey (recency c)) (the_map c)"
  unfolding range_order_def using wf_keys_distinct[of c] wf_keys_dom[of c] by blast

lemma Clear_range_run:
  assumes "\<forall>k\<in>set ks. \<exists>e kv. m k = Some e \<and> elements c e = Some kv \<and> ekey kv = k"
  shows "Clear_range ks m c =
     Inr (c\<lparr>evicted := evicted c @ map (\<lambda>k. (k, evalue (the (elements c (the (m k)))))) ks,
            observed := observed c @ replicate (length ks) (cache c, ll c)\<rparr>)"
  using assms
proof (induction ks arbitrary: c)
  case Nil
  then show ?case by simp
next
  case (Cons k ks)
  obtain e kv where kv: "m k = Some e" "elements c e = Some kv" "ekey kv = k"
    using Cons.prems by auto
  let ?c = "OnEvicted_call (ekey kv) (evalue kv) c"
  have "\<forall>k\<in>set ks. \<exists>e kv. m k = Some e \<and> elements ?c e = Some kv \<and> ekey kv = k"
    using Cons.prems by simp
  from Cons.IH[OF this] show ?case
    using kv by (simp add: OnEvicted_call_def replicate_app_Cons_same)
qed

lemma Clear_calls:
  assumes wf: "wf c" and ro: "range_order ks (the_map c)"
  defines "calls \<equiv> map (\<lambda>k. (k, evalue (the (elements c (the (the_map c k)))))) ks"
  shows "map fst calls = ks"
    and "mset calls = mset (map (\<lambda>x. (ekey x, evalue x)) (recency c))"
    and "length calls = length (recency c)"
proof -
  show fst: "map fst calls = ks" by (simp add: calls_def comp_def)
  have dk: "distinct ks" "set ks = dom (the_map c)"
    using ro by (simp_all add: range_order_def)
  have d1: "distinct calls"
    using fst dk(1) by (metis distinct_map)
  have inj: "inj_on ekey (set (recency c))" and d0: "distinct (recency c)"
    using wf_keys_distinct[OF wf] by (simp_all add: distinct_map)
  have d2: "distinct (map (\<lambda>x. (ekey x, evalue x)) (recency c))"
    using d0 by (auto simp: distinct_map intro!: inj_onI)
  have "set calls = set (map (\<lambda>x. (ekey x, evalue x)) (recency c))"
  proof (intro set_eqI iffI)
    fix p assume "p \<in> set calls"
    then obtain k where k: "k \<in> set ks" "p = (k, evalue (the (elements c (the (the_map c k)))))"
      by (auto simp: calls_def)
    then obtain e where e: "the_map c k = Some e" using dk(2) by auto
    obtain kv where "elements c e = Some kv" "ekey kv = k" "kv \<in> set (recency c)"
      using wf_lookup[OF wf e] by blast
    then show "p \<in> set (map (\<lambda>x. (ekey x, evalue x)) (recency c))"
      using k e by force
  next
    fix p assume "p \<in> set (map (\<lambda>x. (ekey x, evalue x)) (recency c))"
    then obtain x where x: "x \<in> set (recency c)" "p = (ekey x, evalue x)" by auto
    then have "ekey x \<in> dom (the_map c)" using wf_keys_dom[OF wf] by auto
    then obtain e where e: "the_map c (ekey x) = Some e" by auto
    obtain kv where kv: "elements c e = Some kv" "ekey kv = ekey x" "kv \<in> set (recency c)"
      using wf_lookup[OF wf e] by blast
    then have "kv = x" using inj x(1) by (auto dest: inj_onD)
    then have "p = (ekey x, evalue (the (elements c (the (the_map c (ekey x))))))"
      using x kv e by simp
    moreover have "ekey x \<in> set ks" using dk(2) e by auto
    ultimately show "p \<in> set calls" by (auto simp: calls_def)
  qed
  then show m: "mset calls = mset (map (\<lambda>x. (ekey x, evalue x)) (recency c))"
    by (rule iffD1[OF set_eq_iff_mset_eq_distinct[OF d1 d2]])
  show "length calls = length (recency c)"
    using m by (metis length_map size_mset)
qed

lemma Clear_wf:
  assumes wf: "wf c" and ro: "range_order ks (the_map c)"
  shows "Cache_Clear ks c =
     Inr (c\<lparr>evicted := evicted c @
              (if OnEvicted c
               then map (\<lambda>k. (k, evalue (the (elements c (the (the_map c k)))))) ks else []),
            observed := observed c @
              (if OnEvicted c then replicate (length ks) (cache c, ll c) else []),
            ll := None, cache := None\<rparr>)"
proof (cases "OnEvicted c")
  case False
  then show ?thesis by (simp add: Cache_Clear_def)
next
  case True
  have "\<forall>k\<in>set ks. \<exists>e kv. the_map c k = Some e \<and> elements c e = Some kv \<and> ekey kv = k"
  proof
    fix k assume "k \<in> set ks"
    then obtain e where e: "the_map c k = Some e"
      using ro by (auto simp: range_order_def)
    then show "\<exists>e kv. the_map c k = Some e \<and> elements c e = Some kv \<and> ekey kv = k"
      using wf_lookup[OF wf e] by blast
  qed
  from Clear_range_run[OF this] show ?thesis
    using True by (simp add: Cache_Clear_def the_map_def)
qed

subsection \<open>Reachable states, unbounded and negative capacity\<close>

lemma wf_New: "wf ((lru_New n)\<lparr>OnEvicted := b\<rparr>)"
  by (simp add: wf_def lru_New_def)

lemma recency_New: "recency ((lru_New n)\<lparr>OnEvicted := b\<rparr>) = []"
  by (simp add: recency_def the_list_def lru_New_def)

text \<open>Every operation on a well-formed cache returns, keeps it well-formed and keeps the
  capacity; the number of entries grows only in \<open>Add\<close>, and there only within the capacity.\<close>

lemma Add_step:
  assumes wf: "wf c"
  shows "\<exists>c'. Cache_Add k v c = Inr c' \<and> wf c' \<and> MaxEntries c' = MaxEntries c
      \<and> OnEvicted c' = OnEvicted c
      \<and> length (recency c') \<le> Suc (length (recency c))
      \<and> (0 < MaxEntries c \<longrightarrow> int (length (recency c)) \<le> MaxEntries c
            \<longrightarrow> int (length (recency c')) \<le> MaxEntries c)"
proof (cases "the_map c k")
  case None
  obtain c' where c': "Cache_Add k v c = Inr c'" "wf c'"
      "MaxEntries c' = MaxEntries c" "OnEvicted c' = OnEvicted c"
      "if MaxEntries c \<noteq> 0 \<and> int (length (recency c)) + 1 > MaxEntries c
         then recency c' = butlast (\<lparr>ekey = k, evalue = v\<rparr> # recency c)
            \<and> evicted c' =
                (if OnEvicted c
                 then evicted c @ [(ekey (last (\<lparr>ekey = k, evalue = v\<rparr> # recency c)),
                                    evalue (last (\<lparr>ekey = k, evalue = v\<rparr> # recency c)))]
                 else evicted c)
         else recency c' = \<lparr>ekey = k, evalue = v\<rparr> # recency c \<and> evicted c' = evicted c"
    using Add_absent[OF wf None] by blast
  have "length (recency c') \<le> Suc (length (recency c))"
    using c'(5) by (auto split: if_splits)
  moreover have "0 < MaxEntries c \<longrightarrow> int (length (recency c)) \<le> MaxEntries c
            \<longrightarrow> int (length (recency c')) \<le> MaxEntries c"
    using c'(5) by (auto split: if_splits)
  ultimately show ?thesis using c'(1-4) by blast
next
  case (Some e)
  obtain c' where c': "Cache_Add k v c = Inr c'" "wf c'"
      "the_map c' = the_map c" "MaxEntries c' = MaxEntries c" "OnEvicted c' = OnEvicted c"
    using Add_present[OF wf Some] by blast
  have "length (recency c') = length (recency c)"
    using wf_card[OF wf] wf_card[OF c'(2)] c'(3) by simp
  then show ?thesis using c' by auto
qed

lemma Get_step:
  fixes c :: "('k, 'v) Cache"
  assumes wf: "wf c" and run: "Cache_Get k c = Inr (r, c')"
  shows "wf c' \<and> MaxEntries c' = MaxEntries c \<and> length (recency c') = length (recency c)"
proof (cases "the_map c k")
  case None
  then show ?thesis using Get_absent[OF None] run wf by simp
next
  case (Some e)
  obtain kv :: "('k, 'v) entry" and d
    where d: "Cache_Get k c = Inr ((Some (evalue kv), True), d)" "wf d"
      "the_map d = the_map c" "MaxEntries d = MaxEntries c"
    using Get_present[OF wf Some] by blast
  have "length (recency d) = length (recency c)"
    using wf_card[OF wf] wf_card[OF d(2)] d(3) by simp
  then show ?thesis using d run by simp
qed

lemma Remove_step:
  fixes c :: "('k, 'v) Cache"
  assumes wf: "wf c"
  shows "\<exists>c'. Cache_Remove k c = Inr c' \<and> wf c' \<and> MaxEntries c' = MaxEntries c
      \<and> length (recency c') \<le> length (recency c)"
proof (cases "the_map c k")
  case None
  then show ?thesis using Remove_absent[OF None] wf by simp
next
  case (Some e)
  obtain kv :: "('k, 'v) entry" and d where d:
      "Cache_Remove k c = Inr (if OnEvicted c then OnEvicted_call k (evalue kv) d else d)"
      "wf d" "recency d = filter (\<lambda>x. ekey x \<noteq> k) (recency c)" "MaxEntries d = MaxEntries c"
    using Remove_present[OF wf Some] by blast
  then show ?thesis by (cases "OnEvicted c") simp_all
qed

lemma RemoveOldest_step:
  assumes wf: "wf c"
  shows "\<exists>c'. Cache_RemoveOldest c = Inr c' \<and> wf c' \<and> MaxEntries c' = MaxEntries c
      \<and> length (recency c') \<le> length (recency c)"
proof (cases "recency c = []")
  case True
  then show ?thesis using RemoveOldest_empty[OF wf True] wf by simp
next
  case False
  obtain d where d: "Cache_RemoveOldest c =
             Inr (if OnEvicted c
                  then OnEvicted_call (ekey (last (recency c))) (evalue (last (recency c))) d
                  else d)"
      "wf d" "recency d = butlast (recency c)" "MaxEntries d = MaxEntries c"
    using RemoveOldest_wf[OF wf False] by blast
  then show ?thesis by (cases "OnEvicted c") simp_all
qed

lemma Clear_step:
  assumes wf: "wf c" and ro: "range_order ks (the_map c)"
  shows "\<exists>c'. Cache_Clear ks c = Inr c' \<and> wf c' \<and> MaxEntries c' = MaxEntries c
      \<and> OnEvicted c' = OnEvicted c \<and> recency c' = [] \<and> cache c' = None \<and> ll c' = None"
  using Clear_wf[OF wf ro] by (simp add: wf_def recency_def the_list_def)

lemma reachable_inv:
  "reachable n c \<Longrightarrow>
     wf c \<and> MaxEntries c = n \<and> (0 < n \<longrightarrow> int (length (recency c)) \<le> n)"
proof (induction rule: reachable.induct)
  case (reach_New b)
  show ?case by (simp add: wf_New recency_New) (simp add: lru_New_def)
next
  case (reach_Add c k v c')
  then show ?case using Add_step[of c k v] by auto
next
  case (reach_Get c k r c')
  then show ?case using Get_step[of c k r c'] by auto
next
  case (reach_Remove c k c')
  then show ?case using Remove_step[of c k] by auto
next
  case (reach_RemoveOldest c c')
  then show ?case using RemoveOldest_step[of c] by auto
next
  case (reach_Len c m)
  then show ?case by simp
next
  case (reach_Clear c ks c')
  then show ?case using Clear_step[of c ks] by auto
qed

text \<open>Unbounded mode.\<close>

lemma Adds_unbounded:
  "wf c \<Longrightarrow> MaxEntries c = 0 \<Longrightarrow>
   \<exists>c'. Adds kvs c = Inr c' \<and> wf c' \<and> evicted c' = evicted c
      \<and> set (map ekey (recency c')) = set (map ekey (recency c)) \<union> fst ` set kvs"
proof (induction kvs arbitrary: c)
  case Nil
  then show ?case by simp
next
  case (Cons kv kvs)
  obtain k v where kv: "kv = (k, v)" by (cases kv)
  have "\<exists>c1. Cache_Add k v c = Inr c1 \<and> wf c1 \<and> MaxEntries c1 = 0 \<and> evicted c1 = evicted c
      \<and> set (map ekey (recency c1)) = insert k (set (map ekey (recency c)))"
  proof (cases "the_map c k")
    case None
    show ?thesis using Add_absent[OF Cons.prems(1) None, of v] Cons.prems(2) by auto
  next
    case (Some e)
    then have "k \<in> set (map ekey (recency c))"
      using wf_keys_dom[OF Cons.prems(1)] by auto
    then show ?thesis
      using Add_present[OF Cons.prems(1) Some, of v] Cons.prems(2) by auto
  qed
  then obtain c1 where c1: "Cache_Add k v c = Inr c1" "wf c1" "MaxEntries c1 = 0"
      "evicted c1 = evicted c"
      "set (map ekey (recency c1)) = insert k (set (map ekey (recency c)))"
    by blast
  from Cons.IH[OF c1(2,3)] show ?case
    using c1 kv by auto
qed

text \<open>Negative capacity.\<close>

lemma Add_negative:
  assumes wf: "wf c" and neg: "MaxEntries c < 0" and em: "recency c = []"
  shows "\<exists>c'. Cache_Add k v c = Inr c' \<and> wf c' \<and> MaxEntries c' = MaxEntries c
      \<and> OnEvicted c' = OnEvicted c \<and> recency c' = []
      \<and> evicted c' = (if OnEvicted c then evicted c @ [(k, v)] else evicted c)"
  using Add_absent[OF wf wf_absent_recency[OF wf em], of k v] neg em by auto

lemma Adds_negative:
  "wf c \<Longrightarrow> MaxEntries c < 0 \<Longrightarrow> recency c = [] \<Longrightarrow>
   \<exists>c'. Adds kvs c = Inr c' \<and> wf c' \<and> recency c' = []
      \<and> evicted c' = (if OnEvicted c then evicted c @ kvs else evicted c)"
proof (induction kvs arbitrary: c)
  case Nil
  then show ?case by simp
next
  case (Cons kv kvs)
  obtain k v where kv: "kv = (k, v)" by (cases kv)
  obtain c1 where c1: "Cache_Add k v c = Inr c1" "wf c1" "MaxEntries c1 = MaxEntries c"
      "OnEvicted c1 = OnEvicted c" "recency c1 = []"
      "evicted c1 = (if OnEvicted c then evicted c @ [(k, v)] else evicted c)"
    using Add_negative[OF Cons.prems, of k v] by blast
  have "MaxEntries c1 < 0" using c1(3) Cons.prems(2) by simp
  from Cons.IH[OF c1(2) this c1(5)] show ?case
    using c1 kv by auto
qed

lemma Add_same_view:
  fixes c1 c2 :: "('k, 'v) Cache"
  assumes w1: "wf c1" and w2: "wf c2" and r: "recency c1 = recency c2"
    and mx: "MaxEntries c1 = MaxEntries c2" and oe: "OnEvicted c1 = OnEvicted c2"
  shows "\<exists>d1 d2 calls. Cache_Add k v c1 = Inr d1 \<and> Cache_Add k v c2 = Inr d2
      \<and> wf d1 \<and> wf d2 \<and> recency d1 = recency d2
      \<and> MaxEntries d1 = MaxEntries d2 \<and> OnEvicted d1 = OnEvicted d2
      \<and> evicted d1 = evicted c1 @ calls \<and> evicted d2 = evicted c2 @ calls"
proof -
  have dm: "dom (the_map c1) = dom (the_map c2)"
    using wf_keys_dom[OF w1] wf_keys_dom[OF w2] r by simp
  show ?thesis
  proof (cases "the_map c1 k")
    case (Some e1)
    then obtain e2 where e2: "the_map c2 k = Some e2" using dm by blast
    obtain d1 where d1: "Cache_Add k v c1 = Inr d1" "wf d1"
        "recency d1 = \<lparr>ekey = k, evalue = v\<rparr> # filter (\<lambda>x. ekey x \<noteq> k) (recency c1)"
        "evicted d1 = evicted c1" "MaxEntries d1 = MaxEntries c1" "OnEvicted d1 = OnEvicted c1"
      using Add_present[OF w1 Some] by blast
    obtain d2 where d2: "Cache_Add k v c2 = Inr d2" "wf d2"
        "recency d2 = \<lparr>ekey = k, evalue = v\<rparr> # filter (\<lambda>x. ekey x \<noteq> k) (recency c2)"
        "evicted d2 = evicted c2" "MaxEntries d2 = MaxEntries c2" "OnEvicted d2 = OnEvicted c2"
      using Add_present[OF w2 e2] by blast
    show ?thesis
      using d1 d2 r mx oe
      by (intro exI[of _ d1] exI[of _ d2] exI[of _ "[]"]) simp
  next
    case None
    then have n2: "the_map c2 k = None" using dm by blast
    define ins where "ins = \<lparr>ekey = k, evalue = v\<rparr> # recency c1"
    define calls where "calls =
      (if MaxEntries c1 \<noteq> 0 \<and> int (length (recency c1)) + 1 > MaxEntries c1 \<and> OnEvicted c1
       then [(ekey (last ins), evalue (last ins))] else [])"
    obtain d1 where d1: "Cache_Add k v c1 = Inr d1" "wf d1"
        "MaxEntries d1 = MaxEntries c1" "OnEvicted d1 = OnEvicted c1"
        "if MaxEntries c1 \<noteq> 0 \<and> int (length (recency c1)) + 1 > MaxEntries c1
         then recency d1 = butlast ins
            \<and> evicted d1 =
                (if OnEvicted c1 then evicted c1 @ [(ekey (last ins), evalue (last ins))]
                 else evicted c1)
         else recency d1 = ins \<and> evicted d1 = evicted c1"
      using Add_absent[OF w1 None, of v] unfolding ins_def by blast
    obtain d2 where d2: "Cache_Add k v c2 = Inr d2" "wf d2"
        "MaxEntries d2 = MaxEntries c2" "OnEvicted d2 = OnEvicted c2"
        "if MaxEntries c1 \<noteq> 0 \<and> int (length (recency c1)) + 1 > MaxEntries c1
         then recency d2 = butlast ins
            \<and> evicted d2 =
                (if OnEvicted c1 then evicted c2 @ [(ekey (last ins), evalue (last ins))]
                 else evicted c2)
         else recency d2 = ins \<and> evicted d2 = evicted c2"
      using Add_absent[OF w2 n2, of v] unfolding ins_def r mx oe by blast
    have "recency d1 = recency d2" "evicted d1 = evicted c1 @ calls"
      "evicted d2 = evicted c2 @ calls"
      using d1(5) d2(5) by (auto simp: calls_def split: if_splits)
    then show ?thesis
      using d1(1-4) d2(1-4) mx oe
      by (intro exI[of _ d1] exI[of _ d2] exI[of _ calls]) simp
  qed
qed

lemma Adds_same_view:
  fixes c1 c2 :: "('k, 'v) Cache"
  shows "wf c1 \<Longrightarrow> wf c2 \<Longrightarrow> recency c1 = recency c2 \<Longrightarrow> MaxEntries c1 = MaxEntries c2 \<Longrightarrow>
    OnEvicted c1 = OnEvicted c2 \<Longrightarrow>
    \<exists>d1 d2 calls. Adds kvs c1 = Inr d1 \<and> Adds kvs c2 = Inr d2
      \<and> wf d1 \<and> wf d2 \<and> recency d1 = recency d2
      \<and> MaxEntries d1 = MaxEntries d2 \<and> OnEvicted d1 = OnEvicted d2
      \<and> evicted d1 = evicted c1 @ calls \<and> evicted d2 = evicted c2 @ calls"
proof (induction kvs arbitrary: c1 c2)
  case Nil
  then show ?case by simp
next
  case (Cons kv kvs)
  obtain k v where kv: "kv = (k, v)" by (cases kv)
  obtain b1 b2 calls1 where b: "Cache_Add k v c1 = Inr b1" "Cache_Add k v c2 = Inr b2"
      "wf b1" "wf b2" "recency b1 = recency b2"
      "MaxEntries b1 = MaxEntries b2" "OnEvicted b1 = OnEvicted b2"
      "evicted b1 = evicted c1 @ calls1" "evicted b2 = evicted c2 @ calls1"
    using Add_same_view[OF Cons.prems, of k v] by blast
  obtain d1 d2 calls2 where d: "Adds kvs b1 = Inr d1" "Adds kvs b2 = Inr d2"
      "wf d1" "wf d2" "recency d1 = recency d2"
      "MaxEntries d1 = MaxEntries d2" "OnEvicted d1 = OnEvicted d2"
      "evicted d1 = evicted b1 @ calls2" "evicted d2 = evicted b2 @ calls2"
    using Cons.IH[OF b(3-7)] by blast
  show ?case
    using b d kv
    by (intro exI[of _ d1] exI[of _ d2] exI[of _ "calls1 @ calls2"]) simp
qed

subsection \<open>The concrete caches\<close>

lemma cache_a_run: "Cache_Add 1 10 cache_empty = Inr cache_a"
  by (simp add: Cache_Add_def cache_empty_def cache_a_def lru_New_def Let_def list_Len_def)

lemma cache_ab_run: "Cache_Add 2 20 cache_a = Inr cache_ab"
  by (simp add: Cache_Add_def cache_ab_def cache_a_def Let_def list_Len_def)

lemma cache_ab_reachable: "reachable 2 cache_ab"
proof -
  have "reachable 2 cache_empty"
    unfolding cache_empty_def by (rule reach_New)
  then have "reachable 2 cache_a"
    using cache_a_run by (rule reach_Add)
  then show ?thesis
    using cache_ab_run by (rule reach_Add)
qed

lemma cache_ab_wf: "wf cache_ab"
  using reachable_inv[OF cache_ab_reachable] by simp

lemma cache_ab_recency:
  "recency cache_ab = [\<lparr>ekey = 2, evalue = 20\<rparr>, \<lparr>ekey = 1, evalue = 10\<rparr>]"
  by (simp add: recency_def the_list_def cache_ab_def)

lemma cache_ab_dom: "dom (the_map cache_ab) = {1, 2}"
  by (auto simp: the_map_def cache_ab_def)

lemma cache_ab_fields:
  "MaxEntries cache_ab = 2" "OnEvicted cache_ab = True" "evicted cache_ab = []"
  by (simp_all add: cache_ab_def)

lemma cache_empty_wf: "wf cache_empty"
  unfolding cache_empty_def by (rule wf_New)

lemma zero_Cache_wf: "wf zero_Cache"
  by (simp add: wf_def zero_Cache_def)

subsection \<open>Specified behaviour of the cache\<close>

text \<open>
  C3. In every state of a cache made by \<open>New n\<close> that a sequence of \<open>Add\<close>, \<open>Get\<close>,
  \<open>Remove\<close>, \<open>RemoveOldest\<close>, \<open>Len\<close> and \<open>Clear\<close> calls can reach, no key occurs
  twice in the recency order, the keys in the recency order are exactly the keys of the
  index, the index leads from each entry's key to the element holding that entry, the
  capacity is still \<open>n\<close>, and when \<open>n\<close> is positive the number of entries is at most
  \<open>n\<close>. \<open>Len\<close> reports the number of entries.
\<close>

theorem C3_invariant:
  fixes c :: "('k, 'v) Cache"
  assumes "reachable n c"
  shows "distinct (map ekey (recency c))
    \<and> set (map ekey (recency c)) = dom (the_map c)
    \<and> (\<forall>x \<in> set (recency c). \<exists>e. the_map c (ekey x) = Some e \<and> elements c e = Some x)
    \<and> MaxEntries c = n
    \<and> (0 < n \<longrightarrow> int (length (recency c)) \<le> n)
    \<and> Cache_Len c = Inr (int (length (recency c)))
    \<and> wf c"
proof -
  have inv: "wf c" "MaxEntries c = n" "0 < n \<longrightarrow> int (length (recency c)) \<le> n"
    using reachable_inv[OF assms] by simp_all
  show ?thesis
    using inv wf_keys_distinct[OF inv(1)] wf_keys_dom[OF inv(1)] Len_wf[OF inv(1)]
      wf_index_entry[OF inv(1)]
    by blast
qed

theorem C3_invariant_witness:
  "reachable 2 cache_ab \<and> distinct (map ekey (recency cache_ab))
   \<and> dom (the_map cache_ab) = {2, 1} \<and> int (length (recency cache_ab)) \<le> 2
   \<and> Cache_Len cache_ab = Inr 2"
proof -
  note t = C3_invariant[OF cache_ab_reachable]
  have "distinct (map ekey (recency cache_ab))" using t by blast
  moreover have "set (map ekey (recency cache_ab)) = dom (the_map cache_ab)" using t by blast
  then have "dom (the_map cache_ab) = {2, 1}" by (simp add: cache_ab_recency)
  moreover have "(0::int) < 2 \<longrightarrow> int (length (recency cache_ab)) \<le> 2" using t by blast
  moreover have "Cache_Len cache_ab = Inr (int (length (recency cache_ab)))" using t by blast
  then have "Cache_Len cache_ab = Inr 2" by (simp add: cache_ab_recency)
  ultimately show ?thesis using cache_ab_reachable by simp
qed

text \<open>
  C5. \<open>Get k\<close> on a key of the index returns the value stored for \<open>k\<close> with
  \<open>ok = true\<close>, moves that entry to the front of the recency order and leaves the other
  entries in their order; index, callback log and capacity stay as they were. \<open>Get k\<close> on
  a key not in the index returns \<open>(nil, false)\<close> and the state it was given, so nothing
  changed and no callback ran.
\<close>

theorem C5_Get:
  fixes c :: "('k, 'v) Cache"
  assumes "wf c"
  shows "(k \<in> dom (the_map c) \<longrightarrow>
           (\<exists>kv c'. kv \<in> set (recency c) \<and> ekey kv = k
              \<and> Cache_Get k c = Inr ((Some (evalue kv), True), c')
              \<and> recency c' = kv # filter (\<lambda>x. ekey x \<noteq> k) (recency c)
              \<and> the_map c' = the_map c \<and> evicted c' = evicted c
              \<and> MaxEntries c' = MaxEntries c \<and> OnEvicted c' = OnEvicted c \<and> wf c'))
    \<and> (k \<notin> dom (the_map c) \<longrightarrow> Cache_Get k c = Inr ((None, False), c))"
proof (intro conjI impI)
  assume "k \<in> dom (the_map c)"
  then obtain e where e: "the_map c k = Some e" by auto
  from Get_present[OF assms e]
  show "\<exists>kv c'. kv \<in> set (recency c) \<and> ekey kv = k
              \<and> Cache_Get k c = Inr ((Some (evalue kv), True), c')
              \<and> recency c' = kv # filter (\<lambda>x. ekey x \<noteq> k) (recency c)
              \<and> the_map c' = the_map c \<and> evicted c' = evicted c
              \<and> MaxEntries c' = MaxEntries c \<and> OnEvicted c' = OnEvicted c \<and> wf c'"
    by blast
next
  assume "k \<notin> dom (the_map c)"
  then have "the_map c k = None" by auto
  then show "Cache_Get k c = Inr ((None, False), c)" by (rule Get_absent)
qed

theorem C5_Get_witness:
  "wf cache_ab
   \<and> (\<exists>c'. Cache_Get 1 cache_ab = Inr ((Some 10, True), c')
         \<and> recency c' = [\<lparr>ekey = 1, evalue = 10\<rparr>, \<lparr>ekey = 2, evalue = 20\<rparr>]
         \<and> evicted c' = [])
   \<and> Cache_Get 3 cache_ab = Inr ((None, False), cache_ab)"
proof -
  have p: "(1::nat) \<in> dom (the_map cache_ab)" and q: "(3::nat) \<notin> dom (the_map cache_ab)"
    by (simp_all add: cache_ab_dom)
  obtain kv c' where a: "kv \<in> set (recency cache_ab)" "ekey kv = 1"
      "Cache_Get 1 cache_ab = Inr ((Some (evalue kv), True), c')"
      "recency c' = kv # filter (\<lambda>x. ekey x \<noteq> 1) (recency cache_ab)"
      "evicted c' = evicted cache_ab"
    using C5_Get[OF cache_ab_wf, of 1] p by blast
  have kv: "kv = \<lparr>ekey = 1, evalue = 10\<rparr>"
    using a(1,2) by (auto simp: cache_ab_recency)
  have hit: "\<exists>c'. Cache_Get 1 cache_ab = Inr ((Some 10, True), c')
         \<and> recency c' = [\<lparr>ekey = 1, evalue = 10\<rparr>, \<lparr>ekey = 2, evalue = 20\<rparr>]
         \<and> evicted c' = []"
    using a(3,4,5) by (intro exI[of _ c']) (simp add: kv cache_ab_recency cache_ab_fields)
  have miss: "Cache_Get 3 cache_ab = Inr ((None, False), cache_ab)"
    using C5_Get[OF cache_ab_wf, of 3] q by blast
  show ?thesis using cache_ab_wf hit miss by simp
qed

text \<open>
  C2. \<open>Add k v\<close> on a well-formed cache. When \<open>k\<close> is in the index, the entry of
  \<open>k\<close> now holds \<open>v\<close> and is at the front of the recency order, the other entries keep
  their order, and index, number of entries, callback log, capacity and callback are
  unchanged. When \<open>k\<close> is not in the index, the new entry \<open>(k, v)\<close> is put in front,
  giving the sequence \<open>ins\<close>; if the capacity is not 0 and the length of \<open>ins\<close> exceeds
  it, exactly the last entry of \<open>ins\<close> is removed and the callback, when set, is called
  once with it; for a positive capacity that last entry is the least recently used entry
  of the old state and the new entry stays, recorded in the index; otherwise nothing is
  removed, no callback runs and the index records the new entry. With capacity 0, any
  sequence of \<open>Add\<close> calls returns, never calls the callback and only adds keys to the
  index.
\<close>

theorem C2_Add:
  fixes c :: "('k, 'v) Cache"
  assumes "wf c"
  shows "(k \<in> dom (the_map c) \<longrightarrow>
           (\<exists>c'. Cache_Add k v c = Inr c'
              \<and> recency c' = \<lparr>ekey = k, evalue = v\<rparr> # filter (\<lambda>x. ekey x \<noteq> k) (recency c)
              \<and> length (recency c') = length (recency c)
              \<and> the_map c' = the_map c \<and> evicted c' = evicted c
              \<and> MaxEntries c' = MaxEntries c \<and> OnEvicted c' = OnEvicted c \<and> wf c'))
    \<and> (k \<notin> dom (the_map c) \<longrightarrow>
           (\<exists>c'. Cache_Add k v c = Inr c'
              \<and> MaxEntries c' = MaxEntries c \<and> OnEvicted c' = OnEvicted c \<and> wf c'
              \<and> (let ins = \<lparr>ekey = k, evalue = v\<rparr> # recency c in
                  if MaxEntries c \<noteq> 0 \<and> int (length ins) > MaxEntries c
                  then recency c' = butlast ins
                     \<and> evicted c' =
                         (if OnEvicted c then evicted c @ [(ekey (last ins), evalue (last ins))]
                          else evicted c)
                     \<and> (0 < MaxEntries c \<longrightarrow>
                          recency c \<noteq> [] \<and> last ins = last (recency c)
                          \<and> recency c' = \<lparr>ekey = k, evalue = v\<rparr> # butlast (recency c)
                          \<and> (\<exists>e. the_map c' k = Some e
                                \<and> elements c' e = Some \<lparr>ekey = k, evalue = v\<rparr>))
                  else recency c' = ins \<and> evicted c' = evicted c
                     \<and> (\<exists>e. the_map c' k = Some e
                                \<and> elements c' e = Some \<lparr>ekey = k, evalue = v\<rparr>))))
    \<and> (MaxEntries c = 0 \<longrightarrow>
           (\<exists>c'. Adds kvs c = Inr c' \<and> evicted c' = evicted c
              \<and> dom (the_map c') = dom (the_map c) \<union> fst ` set kvs \<and> wf c'))"
proof (intro conjI impI)
  assume "k \<in> dom (the_map c)"
  then obtain e where e: "the_map c k = Some e" by auto
  obtain c' where c': "Cache_Add k v c = Inr c'" "wf c'"
      "recency c' = \<lparr>ekey = k, evalue = v\<rparr> # filter (\<lambda>x. ekey x \<noteq> k) (recency c)"
      "the_map c' = the_map c"
      "evicted c' = evicted c" "MaxEntries c' = MaxEntries c" "OnEvicted c' = OnEvicted c"
    using Add_present[OF assms e] by blast
  have "length (recency c') = length (recency c)"
    using wf_card[OF assms] wf_card[OF c'(2)] c'(4) by simp
  then show "\<exists>c'. Cache_Add k v c = Inr c'
              \<and> recency c' = \<lparr>ekey = k, evalue = v\<rparr> # filter (\<lambda>x. ekey x \<noteq> k) (recency c)
              \<and> length (recency c') = length (recency c)
              \<and> the_map c' = the_map c \<and> evicted c' = evicted c
              \<and> MaxEntries c' = MaxEntries c \<and> OnEvicted c' = OnEvicted c \<and> wf c'"
    using c' by blast
next
  assume "k \<notin> dom (the_map c)"
  then have n: "the_map c k = None" by auto
  define ins where "ins = \<lparr>ekey = k, evalue = v\<rparr> # recency c"
  obtain c' where c': "Cache_Add k v c = Inr c'" "wf c'"
      "MaxEntries c' = MaxEntries c" "OnEvicted c' = OnEvicted c"
      "if MaxEntries c \<noteq> 0 \<and> int (length (recency c)) + 1 > MaxEntries c
         then recency c' = butlast ins
            \<and> evicted c' =
                (if OnEvicted c then evicted c @ [(ekey (last ins), evalue (last ins))]
                 else evicted c)
         else recency c' = ins \<and> evicted c' = evicted c"
    using Add_absent[OF assms n, of v] unfolding ins_def by blast
  have idx: "\<exists>e. the_map c' k = Some e \<and> elements c' e = Some \<lparr>ekey = k, evalue = v\<rparr>"
    if "\<lparr>ekey = k, evalue = v\<rparr> \<in> set (recency c')"
    using wf_index_entry[OF c'(2) that] by simp
  have body: "if MaxEntries c \<noteq> 0 \<and> int (length ins) > MaxEntries c
                  then recency c' = butlast ins
                     \<and> evicted c' =
                         (if OnEvicted c then evicted c @ [(ekey (last ins), evalue (last ins))]
                          else evicted c)
                     \<and> (0 < MaxEntries c \<longrightarrow>
                          recency c \<noteq> [] \<and> last ins = last (recency c)
                          \<and> recency c' = \<lparr>ekey = k, evalue = v\<rparr> # butlast (recency c)
                          \<and> (\<exists>e. the_map c' k = Some e
                                \<and> elements c' e = Some \<lparr>ekey = k, evalue = v\<rparr>))
                  else recency c' = ins \<and> evicted c' = evicted c
                     \<and> (\<exists>e. the_map c' k = Some e
                                \<and> elements c' e = Some \<lparr>ekey = k, evalue = v\<rparr>)"
  proof (cases "MaxEntries c \<noteq> 0 \<and> int (length ins) > MaxEntries c")
    case False
    then have r: "recency c' = ins" "evicted c' = evicted c"
      using c'(5) by (auto simp: ins_def)
    then have "\<lparr>ekey = k, evalue = v\<rparr> \<in> set (recency c')" by (simp add: ins_def)
    from idx[OF this] show ?thesis
      unfolding if_not_P[OF False] using r by blast
  next
    case True
    then have r: "recency c' = butlast ins"
      "evicted c' = (if OnEvicted c then evicted c @ [(ekey (last ins), evalue (last ins))]
                 else evicted c)"
      using c'(5) by (auto simp: ins_def)
    have "recency c \<noteq> [] \<and> last ins = last (recency c)
           \<and> recency c' = \<lparr>ekey = k, evalue = v\<rparr> # butlast (recency c)
           \<and> (\<exists>e. the_map c' k = Some e \<and> elements c' e = Some \<lparr>ekey = k, evalue = v\<rparr>)"
      if pos: "0 < MaxEntries c"
    proof -
      have ne: "recency c \<noteq> []" using True pos by (auto simp: ins_def)
      then have r': "recency c' = \<lparr>ekey = k, evalue = v\<rparr> # butlast (recency c)"
        using r(1) by (simp add: ins_def)
      then have "\<lparr>ekey = k, evalue = v\<rparr> \<in> set (recency c')" by simp
      from idx[OF this] have "\<exists>e. the_map c' k = Some e
          \<and> elements c' e = Some \<lparr>ekey = k, evalue = v\<rparr>" .
      moreover have "last ins = last (recency c)" using ne by (simp add: ins_def)
      ultimately show ?thesis using ne r' by blast
    qed
    then show ?thesis
      unfolding if_P[OF True] using r by blast
  qed
  show "\<exists>c'. Cache_Add k v c = Inr c'
              \<and> MaxEntries c' = MaxEntries c \<and> OnEvicted c' = OnEvicted c \<and> wf c'
              \<and> (let ins = \<lparr>ekey = k, evalue = v\<rparr> # recency c in
                  if MaxEntries c \<noteq> 0 \<and> int (length ins) > MaxEntries c
                  then recency c' = butlast ins
                     \<and> evicted c' =
                         (if OnEvicted c then evicted c @ [(ekey (last ins), evalue (last ins))]
                          else evicted c)
                     \<and> (0 < MaxEntries c \<longrightarrow>
                          recency c \<noteq> [] \<and> last ins = last (recency c)
                          \<and> recency c' = \<lparr>ekey = k, evalue = v\<rparr> # butlast (recency c)
                          \<and> (\<exists>e. the_map c' k = Some e
                                \<and> elements c' e = Some \<lparr>ekey = k, evalue = v\<rparr>))
                  else recency c' = ins \<and> evicted c' = evicted c
                     \<and> (\<exists>e. the_map c' k = Some e
                                \<and> elements c' e = Some \<lparr>ekey = k, evalue = v\<rparr>))"
    unfolding Let_def ins_def[symmetric]
    using c'(1-4) body by blast
next
  assume "MaxEntries c = 0"
  from Adds_unbounded[OF assms this, of kvs]
  obtain c' where c': "Adds kvs c = Inr c'" "wf c'" "evicted c' = evicted c"
      "set (map ekey (recency c')) = set (map ekey (recency c)) \<union> fst ` set kvs"
    by blast
  then have "dom (the_map c') = dom (the_map c) \<union> fst ` set kvs"
    using wf_keys_dom[OF assms] wf_keys_dom[OF c'(2)] by simp
  then show "\<exists>c'. Adds kvs c = Inr c' \<and> evicted c' = evicted c
              \<and> dom (the_map c') = dom (the_map c) \<union> fst ` set kvs \<and> wf c'"
    using c' by blast
qed

theorem C2_Add_witness:
  "wf cache_ab
   \<and> (\<exists>c'. Cache_Add 1 99 cache_ab = Inr c'
         \<and> recency c' = [\<lparr>ekey = 1, evalue = 99\<rparr>, \<lparr>ekey = 2, evalue = 20\<rparr>]
         \<and> evicted c' = [])
   \<and> (\<exists>c'. Cache_Add 3 30 cache_ab = Inr c'
         \<and> recency c' = [\<lparr>ekey = 3, evalue = 30\<rparr>, \<lparr>ekey = 2, evalue = 20\<rparr>]
         \<and> evicted c' = [(1, 10)])
   \<and> (\<exists>c'. Adds [(1, 10), (2, 20), (3, 30)] (zero_Cache :: (nat, nat) Cache) = Inr c'
         \<and> dom (the_map c') = {1, 2, 3} \<and> evicted c' = [])"
proof -
  have p: "(1::nat) \<in> dom (the_map cache_ab)" and q: "(3::nat) \<notin> dom (the_map cache_ab)"
    by (simp_all add: cache_ab_dom)
  have upd: "\<exists>c'. Cache_Add 1 99 cache_ab = Inr c'
         \<and> recency c' = [\<lparr>ekey = 1, evalue = 99\<rparr>, \<lparr>ekey = 2, evalue = 20\<rparr>]
         \<and> evicted c' = []"
  proof -
    obtain c' where "Cache_Add 1 99 cache_ab = Inr c'"
        "recency c' = \<lparr>ekey = 1, evalue = 99\<rparr> # filter (\<lambda>x. ekey x \<noteq> 1) (recency cache_ab)"
        "evicted c' = evicted cache_ab"
      using C2_Add[OF cache_ab_wf, of 1 99 "[]"] p by blast
    then show ?thesis
      by (intro exI[of _ c']) (simp add: cache_ab_recency cache_ab_fields)
  qed
  have ins: "\<exists>c'. Cache_Add 3 30 cache_ab = Inr c'
         \<and> recency c' = [\<lparr>ekey = 3, evalue = 30\<rparr>, \<lparr>ekey = 2, evalue = 20\<rparr>]
         \<and> evicted c' = [(1, 10)]"
  proof -
    obtain c' where c': "Cache_Add 3 30 cache_ab = Inr c'"
        "let ins = \<lparr>ekey = 3, evalue = 30\<rparr> # recency cache_ab in
                  if MaxEntries cache_ab \<noteq> 0 \<and> int (length ins) > MaxEntries cache_ab
                  then recency c' = butlast ins
                     \<and> evicted c' =
                         (if OnEvicted cache_ab
                          then evicted cache_ab @ [(ekey (last ins), evalue (last ins))]
                          else evicted cache_ab)
                     \<and> (0 < MaxEntries cache_ab \<longrightarrow>
                          recency cache_ab \<noteq> [] \<and> last ins = last (recency cache_ab)
                          \<and> recency c' = \<lparr>ekey = 3, evalue = 30\<rparr> # butlast (recency cache_ab)
                          \<and> (\<exists>e. the_map c' 3 = Some e
                                \<and> elements c' e = Some \<lparr>ekey = 3, evalue = 30\<rparr>))
                  else recency c' = ins \<and> evicted c' = evicted cache_ab
                     \<and> (\<exists>e. the_map c' 3 = Some e
                                \<and> elements c' e = Some \<lparr>ekey = 3, evalue = 30\<rparr>)"
      using C2_Add[OF cache_ab_wf, of 3 30 "[]"] q by blast
    have "recency c' = [\<lparr>ekey = 3, evalue = 30\<rparr>, \<lparr>ekey = 2, evalue = 20\<rparr>]"
      "evicted c' = [(1, 10)]"
      using c'(2) by (simp_all add: cache_ab_recency cache_ab_fields Let_def)
    then show ?thesis using c'(1) by blast
  qed
  have unb: "\<exists>c'. Adds [(1, 10), (2, 20), (3, 30)] (zero_Cache :: (nat, nat) Cache) = Inr c'
         \<and> dom (the_map c') = {1, 2, 3} \<and> evicted c' = []"
  proof -
    have z: "MaxEntries (zero_Cache :: (nat, nat) Cache) = 0" by (simp add: zero_Cache_def)
    obtain c' where "Adds [(1, 10), (2, 20), (3, 30)] (zero_Cache :: (nat, nat) Cache) = Inr c'"
        "evicted c' = evicted (zero_Cache :: (nat, nat) Cache)"
        "dom (the_map c') = dom (the_map (zero_Cache :: (nat, nat) Cache))
            \<union> fst ` set [(1::nat, 10::nat), (2, 20), (3, 30)]"
      using C2_Add[OF zero_Cache_wf, of 1 10 "[(1, 10), (2, 20), (3, 30)]"] z by blast
    then show ?thesis
      by (intro exI[of _ c']) (auto simp: zero_Cache_def the_map_def)
  qed
  show ?thesis using cache_ab_wf upd ins unb by simp
qed

text \<open>
  C6. \<open>Remove k\<close> on a well-formed cache, for \<open>k\<close> in the index with stored entry
  \<open>kv\<close>: first the entry is detached, giving a state \<open>d\<close> without it in the recency
  order and in the index and with both logs as before; then the callback, when set, is
  called once, in the state \<open>d\<close>, with \<open>(k, evalue kv)\<close>. That the call comes after the
  detaching is what the callback can see: the map and list recorded for this call are
  those of \<open>d\<close>, where the map has no element for \<open>k\<close> and the list holds no entry with
  key \<open>k\<close>. Afterwards \<open>Get k\<close> misses. For \<open>k\<close> not in the index \<open>Remove k\<close> returns
  the state unchanged, so no callback ran. \<open>RemoveOldest\<close> does the same
  detach-then-callback with the last entry of the recency order, and returns the state
  unchanged when there is no entry.
\<close>

theorem C6_Remove:
  fixes c :: "('k, 'v) Cache"
  assumes "wf c"
  shows "(k \<in> dom (the_map c) \<longrightarrow>
           (\<exists>kv d c'. kv \<in> set (recency c) \<and> ekey kv = k
              \<and> recency d = filter (\<lambda>x. ekey x \<noteq> k) (recency c)
              \<and> the_map d = (the_map c)(k := None) \<and> evicted d = evicted c
              \<and> observed d = observed c
              \<and> Cache_Remove k c = Inr c'
              \<and> c' = (if OnEvicted c then OnEvicted_call k (evalue kv) d else d)
              \<and> evicted c' = (if OnEvicted c then evicted c @ [(k, evalue kv)] else evicted c)
              \<and> (\<exists>ms ls. cache d = Some ms \<and> ll d = Some ls \<and> ms k = None
                    \<and> k \<notin> ekey ` set (entries_of (elements c) ls)
                    \<and> observed c' =
                        (if OnEvicted c then observed c @ [(Some ms, Some ls)] else observed c))
              \<and> Cache_Get k c' = Inr ((None, False), c') \<and> wf c'))
    \<and> (k \<notin> dom (the_map c) \<longrightarrow> Cache_Remove k c = Inr c)
    \<and> (recency c \<noteq> [] \<longrightarrow>
           (\<exists>d c'. recency d = butlast (recency c)
              \<and> the_map d = (the_map c)(ekey (last (recency c)) := None)
              \<and> evicted d = evicted c
              \<and> observed d = observed c
              \<and> Cache_RemoveOldest c = Inr c'
              \<and> c' = (if OnEvicted c
                       then OnEvicted_call (ekey (last (recency c))) (evalue (last (recency c))) d
                       else d)
              \<and> evicted c' =
                  (if OnEvicted c
                   then evicted c @ [(ekey (last (recency c)), evalue (last (recency c)))]
                   else evicted c)
              \<and> (\<exists>ms ls. cache d = Some ms \<and> ll d = Some ls
                    \<and> ms (ekey (last (recency c))) = None
                    \<and> ekey (last (recency c)) \<notin> ekey ` set (entries_of (elements c) ls)
                    \<and> observed c' =
                        (if OnEvicted c then observed c @ [(Some ms, Some ls)] else observed c))
              \<and> wf c'))
    \<and> (recency c = [] \<longrightarrow> Cache_RemoveOldest c = Inr c)"
proof (intro conjI impI)
  assume "k \<in> dom (the_map c)"
  then obtain e where e: "the_map c k = Some e" by auto
  obtain kv :: "('k, 'v) entry" and d where d: "kv \<in> set (recency c)" "ekey kv = k"
      "Cache_Remove k c = Inr (if OnEvicted c then OnEvicted_call k (evalue kv) d else d)"
      "wf d" "recency d = filter (\<lambda>x. ekey x \<noteq> k) (recency c)"
      "the_map d = (the_map c)(k := None)" "evicted d = evicted c"
      "cache d \<noteq> None" "elements d = elements c" "observed d = observed c"
    using Remove_present[OF assms e] by blast
  define c' where "c' = (if OnEvicted c then OnEvicted_call k (evalue kv) d else d)"
  have wf': "wf c'" and m': "the_map c' = (the_map c)(k := None)"
    and ev: "evicted c' = (if OnEvicted c then evicted c @ [(k, evalue kv)] else evicted c)"
    and ob: "observed c' = (if OnEvicted c then observed c @ [(cache d, ll d)] else observed c)"
    using d(4,6,7,10) by (simp_all add: c'_def)
  have "the_map d k = None" using d(6) by simp
  from detached_view[OF d(4) this d(8,9)]
  obtain ms ls where v: "cache d = Some ms" "ll d = Some ls" "ms k = None"
      "k \<notin> ekey ` set (entries_of (elements c) ls)"
    by blast
  have seen: "\<exists>ms ls. cache d = Some ms \<and> ll d = Some ls \<and> ms k = None
                    \<and> k \<notin> ekey ` set (entries_of (elements c) ls)
                    \<and> observed c' =
                        (if OnEvicted c then observed c @ [(Some ms, Some ls)] else observed c)"
    using v ob by simp
  have "the_map c' k = None" using m' by simp
  then have get: "Cache_Get k c' = Inr ((None, False), c')" by (rule Get_absent)
  have "kv \<in> set (recency c) \<and> ekey kv = k
              \<and> recency d = filter (\<lambda>x. ekey x \<noteq> k) (recency c)
              \<and> the_map d = (the_map c)(k := None) \<and> evicted d = evicted c
              \<and> observed d = observed c
              \<and> Cache_Remove k c = Inr c'
              \<and> c' = (if OnEvicted c then OnEvicted_call k (evalue kv) d else d)
              \<and> evicted c' = (if OnEvicted c then evicted c @ [(k, evalue kv)] else evicted c)
              \<and> (\<exists>ms ls. cache d = Some ms \<and> ll d = Some ls \<and> ms k = None
                    \<and> k \<notin> ekey ` set (entries_of (elements c) ls)
                    \<and> observed c' =
                        (if OnEvicted c then observed c @ [(Some ms, Some ls)] else observed c))
              \<and> Cache_Get k c' = Inr ((None, False), c') \<and> wf c'"
    using d(1,2,3,5,6,7,10) ev seen get wf' by (simp add: c'_def)
  then show "\<exists>kv d c'. kv \<in> set (recency c) \<and> ekey kv = k
              \<and> recency d = filter (\<lambda>x. ekey x \<noteq> k) (recency c)
              \<and> the_map d = (the_map c)(k := None) \<and> evicted d = evicted c
              \<and> observed d = observed c
              \<and> Cache_Remove k c = Inr c'
              \<and> c' = (if OnEvicted c then OnEvicted_call k (evalue kv) d else d)
              \<and> evicted c' = (if OnEvicted c then evicted c @ [(k, evalue kv)] else evicted c)
              \<and> (\<exists>ms ls. cache d = Some ms \<and> ll d = Some ls \<and> ms k = None
                    \<and> k \<notin> ekey ` set (entries_of (elements c) ls)
                    \<and> observed c' =
                        (if OnEvicted c then observed c @ [(Some ms, Some ls)] else observed c))
              \<and> Cache_Get k c' = Inr ((None, False), c') \<and> wf c'"
    by (intro exI[of _ kv] exI[of _ d] exI[of _ c'])
next
  assume "k \<notin> dom (the_map c)"
  then have "the_map c k = None" by auto
  then show "Cache_Remove k c = Inr c" by (rule Remove_absent)
next
  assume ne: "recency c \<noteq> []"
  define ko where "ko = ekey (last (recency c))"
  define vo where "vo = evalue (last (recency c))"
  obtain d where d: "Cache_RemoveOldest c =
             Inr (if OnEvicted c then OnEvicted_call ko vo d else d)"
      "wf d" "recency d = butlast (recency c)"
      "the_map d = (the_map c)(ko := None)"
      "evicted d = evicted c"
      "cache d \<noteq> None" "elements d = elements c" "observed d = observed c"
    using RemoveOldest_wf[OF assms ne] unfolding ko_def vo_def by blast
  define c' where "c' = (if OnEvicted c then OnEvicted_call ko vo d else d)"
  have wf': "wf c'"
    and ev: "evicted c' = (if OnEvicted c then evicted c @ [(ko, vo)] else evicted c)"
    and ob: "observed c' = (if OnEvicted c then observed c @ [(cache d, ll d)] else observed c)"
    using d(2,5,8) by (simp_all add: c'_def)
  have "the_map d ko = None" using d(4) by simp
  from detached_view[OF d(2) this d(6,7)]
  obtain ms ls where v: "cache d = Some ms" "ll d = Some ls" "ms ko = None"
      "ko \<notin> ekey ` set (entries_of (elements c) ls)"
    by blast
  have seen: "\<exists>ms ls. cache d = Some ms \<and> ll d = Some ls \<and> ms ko = None
                    \<and> ko \<notin> ekey ` set (entries_of (elements c) ls)
                    \<and> observed c' =
                        (if OnEvicted c then observed c @ [(Some ms, Some ls)] else observed c)"
    using v ob by simp
  have "recency d = butlast (recency c)
              \<and> the_map d = (the_map c)(ko := None)
              \<and> evicted d = evicted c
              \<and> observed d = observed c
              \<and> Cache_RemoveOldest c = Inr c'
              \<and> c' = (if OnEvicted c then OnEvicted_call ko vo d else d)
              \<and> evicted c' = (if OnEvicted c then evicted c @ [(ko, vo)] else evicted c)
              \<and> (\<exists>ms ls. cache d = Some ms \<and> ll d = Some ls \<and> ms ko = None
                    \<and> ko \<notin> ekey ` set (entries_of (elements c) ls)
                    \<and> observed c' =
                        (if OnEvicted c then observed c @ [(Some ms, Some ls)] else observed c))
              \<and> wf c'"
    using d(1,3,4,5,8) ev seen wf' by (simp add: c'_def)
  then show "\<exists>d c'. recency d = butlast (recency c)
              \<and> the_map d = (the_map c)(ekey (last (recency c)) := None)
              \<and> evicted d = evicted c
              \<and> observed d = observed c
              \<and> Cache_RemoveOldest c = Inr c'
              \<and> c' = (if OnEvicted c
                       then OnEvicted_call (ekey (last (recency c))) (evalue (last (recency c))) d
                       else d)
              \<and> evicted c' =
                  (if OnEvicted c
                   then evicted c @ [(ekey (last (recency c)), evalue (last (recency c)))]
                   else evicted c)
              \<and> (\<exists>ms ls. cache d = Some ms \<and> ll d = Some ls
                    \<and> ms (ekey (last (recency c))) = None
                    \<and> ekey (last (recency c)) \<notin> ekey ` set (entries_of (elements c) ls)
                    \<and> observed c' =
                        (if OnEvicted c then observed c @ [(Some ms, Some ls)] else observed c))
              \<and> wf c'"
    unfolding ko_def vo_def by (intro exI[of _ d] exI[of _ c'])
next
  assume "recency c = []"
  then show "Cache_RemoveOldest c = Inr c" by (rule RemoveOldest_empty[OF assms])
qed

theorem C6_Remove_witness:
  "wf cache_ab \<and> wf cache_empty
   \<and> (\<exists>c' ms ls. Cache_Remove 1 cache_ab = Inr c'
         \<and> evicted c' = [(1, 10)]
         \<and> observed c' = [(Some ms, Some ls)] \<and> ms 1 = None
         \<and> 1 \<notin> ekey ` set (entries_of (elements cache_ab) ls)
         \<and> Cache_Get 1 c' = Inr ((None, False), c'))
   \<and> Cache_Remove 3 cache_ab = Inr cache_ab
   \<and> (\<exists>c' ms ls. Cache_RemoveOldest cache_ab = Inr c' \<and> evicted c' = [(1, 10)]
         \<and> observed c' = [(Some ms, Some ls)] \<and> ms 1 = None
         \<and> 1 \<notin> ekey ` set (entries_of (elements cache_ab) ls))
   \<and> Cache_RemoveOldest cache_empty = Inr cache_empty"
proof -
  have p: "(1::nat) \<in> dom (the_map cache_ab)" and q: "(3::nat) \<notin> dom (the_map cache_ab)"
    by (simp_all add: cache_ab_dom)
  have ne: "recency cache_ab \<noteq> []" by (simp add: cache_ab_recency)
  have em: "recency cache_empty = []" unfolding cache_empty_def by (rule recency_New)
  have ob0: "observed cache_ab = []" by (simp add: cache_ab_def)
  have rm: "\<exists>c' ms ls. Cache_Remove 1 cache_ab = Inr c'
         \<and> evicted c' = [(1, 10)]
         \<and> observed c' = [(Some ms, Some ls)] \<and> ms 1 = None
         \<and> 1 \<notin> ekey ` set (entries_of (elements cache_ab) ls)
         \<and> Cache_Get 1 c' = Inr ((None, False), c')"
  proof -
    obtain kv c' ms ls where a: "kv \<in> set (recency cache_ab)" "ekey kv = 1"
        "Cache_Remove 1 cache_ab = Inr c'"
        "evicted c' = (if OnEvicted cache_ab then evicted cache_ab @ [(1, evalue kv)]
                       else evicted cache_ab)"
        "ms 1 = None" "1 \<notin> ekey ` set (entries_of (elements cache_ab) ls)"
        "observed c' = (if OnEvicted cache_ab then observed cache_ab @ [(Some ms, Some ls)]
                        else observed cache_ab)"
        "Cache_Get 1 c' = Inr ((None, False), c')"
      using C6_Remove[OF cache_ab_wf, of 1] p by blast
    have "kv = \<lparr>ekey = 1, evalue = 10\<rparr>"
      using a(1,2) by (auto simp: cache_ab_recency)
    then have "Cache_Remove 1 cache_ab = Inr c'
         \<and> evicted c' = [(1, 10)]
         \<and> observed c' = [(Some ms, Some ls)] \<and> ms 1 = None
         \<and> 1 \<notin> ekey ` set (entries_of (elements cache_ab) ls)
         \<and> Cache_Get 1 c' = Inr ((None, False), c')"
      using a(3-8) by (simp add: cache_ab_fields ob0)
    then show ?thesis by blast
  qed
  have ab: "Cache_Remove 3 cache_ab = Inr cache_ab"
    using C6_Remove[OF cache_ab_wf, of 3] q by blast
  have old: "\<exists>c' ms ls. Cache_RemoveOldest cache_ab = Inr c' \<and> evicted c' = [(1, 10)]
         \<and> observed c' = [(Some ms, Some ls)] \<and> ms 1 = None
         \<and> 1 \<notin> ekey ` set (entries_of (elements cache_ab) ls)"
  proof -
    obtain c' ms ls where a: "Cache_RemoveOldest cache_ab = Inr c'"
        "evicted c' =
           (if OnEvicted cache_ab
            then evicted cache_ab @ [(ekey (last (recency cache_ab)), evalue (last (recency cache_ab)))]
            else evicted cache_ab)"
        "ms (ekey (last (recency cache_ab))) = None"
        "ekey (last (recency cache_ab)) \<notin> ekey ` set (entries_of (elements cache_ab) ls)"
        "observed c' = (if OnEvicted cache_ab then observed cache_ab @ [(Some ms, Some ls)]
                        else observed cache_ab)"
      using C6_Remove[OF cache_ab_wf, of 1] ne by blast
    have "Cache_RemoveOldest cache_ab = Inr c' \<and> evicted c' = [(1, 10)]
         \<and> observed c' = [(Some ms, Some ls)] \<and> ms 1 = None
         \<and> 1 \<notin> ekey ` set (entries_of (elements cache_ab) ls)"
      using a by (simp add: cache_ab_fields cache_ab_recency ob0)
    then show ?thesis by blast
  qed
  have noop: "Cache_RemoveOldest cache_empty = Inr cache_empty"
    using C6_Remove[OF cache_empty_wf, of 1] em by blast
  show ?thesis using cache_ab_wf cache_empty_wf rm ab old noop by simp
qed

text \<open>
  C7. On a well-formed cache the map can be ranged over (its keys form a finite list),
  and for every order \<open>ks\<close> in which \<open>range\<close> may yield the keys, \<open>Clear\<close> returns;
  with the callback set, the calls it makes are one per key in the order \<open>ks\<close>, each key
  once, and as a multiset exactly the (key, value) pairs of the entries held, so their
  number is what \<open>Len\<close> reported; with no callback there is no call. Afterwards \<open>Len\<close> is
  0, there is no entry and no key, and any sequence of \<open>Add\<close> calls on the cleared cache
  gives the same entries, keys, length and callback calls as on a cache newly made with
  the same capacity and callback.
\<close>

theorem C7_Clear:
  fixes c :: "('k, 'v) Cache"
  assumes "wf c"
  shows "range_order (map ekey (recency c)) (the_map c)
    \<and> (\<forall>ks. range_order ks (the_map c) \<longrightarrow>
          (\<exists>c' calls. Cache_Clear ks c = Inr c' \<and> evicted c' = evicted c @ calls
             \<and> (if OnEvicted c
                 then map fst calls = ks
                    \<and> distinct (map fst calls) \<and> set (map fst calls) = dom (the_map c)
                    \<and> mset calls = mset (map (\<lambda>x. (ekey x, evalue x)) (recency c))
                    \<and> Cache_Len c = Inr (int (length calls))
                 else calls = [])
             \<and> Cache_Len c' = Inr 0 \<and> recency c' = [] \<and> dom (the_map c') = {}
             \<and> MaxEntries c' = MaxEntries c \<and> OnEvicted c' = OnEvicted c \<and> wf c'
             \<and> (\<forall>kvs. \<exists>d f. Adds kvs c' = Inr d
                    \<and> Adds kvs ((lru_New (MaxEntries c))\<lparr>OnEvicted := OnEvicted c\<rparr>) = Inr f
                    \<and> recency d = recency f \<and> dom (the_map d) = dom (the_map f)
                    \<and> Cache_Len d = Cache_Len f
                    \<and> MaxEntries d = MaxEntries f \<and> OnEvicted d = OnEvicted f
                    \<and> evicted d = evicted c' @ evicted f)))"
proof (intro conjI allI impI)
  show "range_order (map ekey (recency c)) (the_map c)"
    by (rule wf_range_order[OF assms])
next
  fix ks assume ro: "range_order ks (the_map c)"
  define calls where "calls =
    (if OnEvicted c
     then map (\<lambda>k. (k, evalue (the (elements c (the (the_map c k)))))) ks else [])"
  define c' where "c' = c\<lparr>evicted := evicted c @ calls,
      observed := observed c @ (if OnEvicted c then replicate (length ks) (cache c, ll c) else []),
      ll := None, cache := None\<rparr>"
  have run: "Cache_Clear ks c = Inr c'"
    using Clear_wf[OF assms ro] by (simp add: c'_def calls_def)
  have wf': "wf c'" and rec': "recency c' = []" and dom': "dom (the_map c') = {}"
    by (simp_all add: c'_def wf_def recency_def the_list_def the_map_def)
  have len': "Cache_Len c' = Inr 0" by (simp add: c'_def Cache_Len_def)
  have calls: "if OnEvicted c
                 then map fst calls = ks
                    \<and> distinct (map fst calls) \<and> set (map fst calls) = dom (the_map c)
                    \<and> mset calls = mset (map (\<lambda>x. (ekey x, evalue x)) (recency c))
                    \<and> Cache_Len c = Inr (int (length calls))
                 else calls = []"
  proof (cases "OnEvicted c")
    case False
    then show ?thesis by (simp add: calls_def)
  next
    case True
    then have cd: "calls = map (\<lambda>k. (k, evalue (the (elements c (the (the_map c k)))))) ks"
      by (simp add: calls_def)
    note C = Clear_calls[OF assms ro, folded cd]
    have "distinct (map fst calls)" "set (map fst calls) = dom (the_map c)"
      using C(1) ro by (simp_all add: range_order_def)
    moreover have "Cache_Len c = Inr (int (length calls))"
      using Len_wf[OF assms] C(3) by simp
    ultimately show ?thesis using True C(1,2) by simp
  qed
  have fresh: "\<exists>d f. Adds kvs c' = Inr d
                    \<and> Adds kvs ((lru_New (MaxEntries c))\<lparr>OnEvicted := OnEvicted c\<rparr>) = Inr f
                    \<and> recency d = recency f \<and> dom (the_map d) = dom (the_map f)
                    \<and> Cache_Len d = Cache_Len f
                    \<and> MaxEntries d = MaxEntries f \<and> OnEvicted d = OnEvicted f
                    \<and> evicted d = evicted c' @ evicted f" for kvs
  proof -
    let ?f = "(lru_New (MaxEntries c))\<lparr>OnEvicted := OnEvicted c\<rparr> :: ('k, 'v) Cache"
    have "recency c' = recency ?f" "MaxEntries c' = MaxEntries ?f" "OnEvicted c' = OnEvicted ?f"
      using rec' by (simp_all add: recency_New) (simp_all add: c'_def lru_New_def)
    from Adds_same_view[OF wf' wf_New this, of kvs]
    obtain d f calls2 where d: "Adds kvs c' = Inr d" "Adds kvs ?f = Inr f"
        "wf d" "wf f" "recency d = recency f"
        "MaxEntries d = MaxEntries f" "OnEvicted d = OnEvicted f"
        "evicted d = evicted c' @ calls2" "evicted f = evicted ?f @ calls2"
      by blast
    have "evicted f = calls2" using d(9) by (simp add: lru_New_def)
    moreover have "dom (the_map d) = dom (the_map f)"
      using wf_keys_dom[OF d(3)] wf_keys_dom[OF d(4)] d(5) by simp
    moreover have "Cache_Len d = Cache_Len f"
      using Len_wf[OF d(3)] Len_wf[OF d(4)] d(5) by simp
    ultimately show ?thesis using d by blast
  qed
  show "\<exists>c' calls. Cache_Clear ks c = Inr c' \<and> evicted c' = evicted c @ calls
             \<and> (if OnEvicted c
                 then map fst calls = ks
                    \<and> distinct (map fst calls) \<and> set (map fst calls) = dom (the_map c)
                    \<and> mset calls = mset (map (\<lambda>x. (ekey x, evalue x)) (recency c))
                    \<and> Cache_Len c = Inr (int (length calls))
                 else calls = [])
             \<and> Cache_Len c' = Inr 0 \<and> recency c' = [] \<and> dom (the_map c') = {}
             \<and> MaxEntries c' = MaxEntries c \<and> OnEvicted c' = OnEvicted c \<and> wf c'
             \<and> (\<forall>kvs. \<exists>d f. Adds kvs c' = Inr d
                    \<and> Adds kvs ((lru_New (MaxEntries c))\<lparr>OnEvicted := OnEvicted c\<rparr>) = Inr f
                    \<and> recency d = recency f \<and> dom (the_map d) = dom (the_map f)
                    \<and> Cache_Len d = Cache_Len f
                    \<and> MaxEntries d = MaxEntries f \<and> OnEvicted d = OnEvicted f
                    \<and> evicted d = evicted c' @ evicted f)"
    apply (rule exI[of _ c'], rule exI[of _ calls])
    using run calls wf' rec' dom' len' fresh
    apply (intro conjI)
              apply (simp_all add: c'_def)
    done
qed

lemma cache_ab_range: "range_order [1, 2] (the_map cache_ab)"
  by (auto simp: range_order_def cache_ab_dom)

theorem C7_Clear_witness:
  "wf cache_ab \<and> range_order [1, 2] (the_map cache_ab)
   \<and> (\<exists>c'. Cache_Clear [1, 2] cache_ab = Inr c'
         \<and> map fst (evicted c') = [1, 2] \<and> length (evicted c') = 2
         \<and> Cache_Len cache_ab = Inr 2 \<and> Cache_Len c' = Inr 0
         \<and> (\<exists>d f. Cache_Add 5 50 c' = Inr d \<and> Cache_Add 5 50 cache_empty = Inr f
               \<and> recency d = recency f))"
proof -
  obtain c' calls where a: "Cache_Clear [1, 2] cache_ab = Inr c'"
      "evicted c' = evicted cache_ab @ calls"
      "if OnEvicted cache_ab
                 then map fst calls = [1, 2]
                    \<and> distinct (map fst calls) \<and> set (map fst calls) = dom (the_map cache_ab)
                    \<and> mset calls = mset (map (\<lambda>x. (ekey x, evalue x)) (recency cache_ab))
                    \<and> Cache_Len cache_ab = Inr (int (length calls))
                 else calls = []"
      "Cache_Len c' = Inr 0"
      "\<forall>kvs. \<exists>d f. Adds kvs c' = Inr d
                    \<and> Adds kvs ((lru_New (MaxEntries cache_ab))\<lparr>OnEvicted := OnEvicted cache_ab\<rparr>) = Inr f
                    \<and> recency d = recency f \<and> dom (the_map d) = dom (the_map f)
                    \<and> Cache_Len d = Cache_Len f
                    \<and> MaxEntries d = MaxEntries f \<and> OnEvicted d = OnEvicted f
                    \<and> evicted d = evicted c' @ evicted f"
    using C7_Clear[OF cache_ab_wf] cache_ab_range by blast
  have c: "map fst calls = [1, 2]" "Cache_Len cache_ab = Inr (int (length calls))"
    using a(3) by (simp_all add: cache_ab_fields)
  have l: "length calls = 2" using c(1) by (metis length_map length_Cons list.size(3) numeral_2_eq_2)
  obtain d f where df: "Adds [(5, 50)] c' = Inr d"
      "Adds [(5, 50)] ((lru_New (MaxEntries cache_ab))\<lparr>OnEvicted := OnEvicted cache_ab\<rparr>) = Inr f"
      "recency d = recency f"
    using a(5) by blast
  have "Cache_Add 5 50 c' = Inr d" "Cache_Add 5 50 cache_empty = Inr f"
    using df(1,2) by (auto simp: cache_empty_def cache_ab_fields split: sum.splits)
  then have add: "\<exists>d f. Cache_Add 5 50 c' = Inr d \<and> Cache_Add 5 50 cache_empty = Inr f
               \<and> recency d = recency f"
    using df(3) by blast
  have ev: "map fst (evicted c') = [1, 2]" "length (evicted c') = 2"
    using a(2) c(1) l by (simp_all add: cache_ab_fields)
  have len: "Cache_Len cache_ab = Inr 2" using c(2) l by simp
  have "\<exists>c'. Cache_Clear [1, 2] cache_ab = Inr c'
         \<and> map fst (evicted c') = [1, 2] \<and> length (evicted c') = 2
         \<and> Cache_Len cache_ab = Inr 2 \<and> Cache_Len c' = Inr 0
         \<and> (\<exists>d f. Cache_Add 5 50 c' = Inr d \<and> Cache_Add 5 50 cache_empty = Inr f
               \<and> recency d = recency f)"
    by (rule exI[of _ c']) (use a(1,4) ev len add in simp)
  then show ?thesis
    using cache_ab_wf cache_ab_range by simp
qed

text \<open>
  C9. For a cache made by \<open>New n\<close> with \<open>n < 0\<close>, with or without a callback, any
  sequence of \<open>Add\<close> calls returns and leaves \<open>Len = 0\<close>, no entry and no key, so every
  \<open>Get\<close> misses; with the callback set, the calls made are exactly the added
  (key, value) pairs in the order they were added, one call per \<open>Add\<close>.
\<close>

theorem C9_negative_capacity:
  assumes "n < 0"
  shows "\<exists>c'. Adds kvs ((lru_New n)\<lparr>OnEvicted := b\<rparr>) = Inr c'
      \<and> Cache_Len c' = Inr 0
      \<and> recency c' = [] \<and> dom (the_map c') = {}
      \<and> (\<forall>k. Cache_Get k c' = Inr ((None, False), c'))
      \<and> evicted c' = (if b then kvs else [])"
proof -
  let ?c = "(lru_New n)\<lparr>OnEvicted := b\<rparr> :: ('a, 'b) Cache"
  have "MaxEntries ?c < 0" using assms by (simp add: lru_New_def)
  from Adds_negative[OF wf_New this recency_New, of kvs]
  obtain c' where c': "Adds kvs ?c = Inr c'" "wf c'" "recency c' = []"
      "evicted c' = (if OnEvicted ?c then evicted ?c @ kvs else evicted ?c)"
    by blast
  have ev: "evicted c' = (if b then kvs else [])"
    using c'(4) by (simp add: lru_New_def)
  have len: "Cache_Len c' = Inr 0" using Len_wf[OF c'(2)] c'(3) by simp
  have "\<forall>k. Cache_Get k c' = Inr ((None, False), c')"
    using wf_absent_recency[OF c'(2,3)] by (simp add: Get_absent)
  moreover have "dom (the_map c') = {}" using wf_keys_dom[OF c'(2)] c'(3) by simp
  ultimately show ?thesis using c'(1,3) ev len by blast
qed

theorem C9_negative_capacity_witness:
  "(- 1 :: int) < 0
   \<and> (\<exists>c'. Adds [(1, 10), (2, 20)] ((lru_New (- 1))\<lparr>OnEvicted := True\<rparr> :: (nat, nat) Cache) = Inr c'
         \<and> Cache_Len c' = Inr 0 \<and> evicted c' = [(1, 10), (2, 20)]
         \<and> Cache_Get 1 c' = Inr ((None, False), c'))"
proof -
  have n: "(- 1 :: int) < 0" by simp
  obtain c' where "Adds [(1, 10), (2, 20)] ((lru_New (- 1))\<lparr>OnEvicted := True\<rparr> :: (nat, nat) Cache) = Inr c'"
      "Cache_Len c' = Inr 0" "\<forall>k. Cache_Get k c' = Inr ((None, False), c')"
      "evicted c' = (if True then [(1, 10), (2, 20)] else [])"
    using C9_negative_capacity[OF n, of "[(1, 10), (2, 20)]" True] by blast
  then show ?thesis using n by (intro conjI exI[of _ c']) simp_all
qed

text \<open>
  C10. On a cache whose map is nil, which is the state \<open>Clear\<close> leaves and the state of
  the zero value, no operation panics: \<open>Get\<close> returns \<open>(nil, false)\<close>, \<open>Len\<close> returns 0,
  \<open>Remove\<close>, \<open>RemoveOldest\<close> and \<open>Clear\<close> return without a callback call, all with the
  state unchanged, and \<open>Add\<close> behaves as on the same cache with a new empty map and a new
  empty list, returns, and leaves both map and list allocated.
\<close>

theorem C10_nil_state:
  fixes c :: "('k, 'v) Cache"
  assumes "cache c = None"
  shows "Cache_Get k c = Inr ((None, False), c)
    \<and> Cache_Len c = Inr 0
    \<and> Cache_Remove k c = Inr c
    \<and> Cache_RemoveOldest c = Inr c
    \<and> Cache_Clear [] c = Inr (c\<lparr>ll := None, cache := None\<rparr>)
    \<and> Cache_Add k v c = Cache_Add k v (c\<lparr>cache := Some Map.empty, ll := Some []\<rparr>)
    \<and> (\<exists>c'. Cache_Add k v c = Inr c' \<and> cache c' \<noteq> None \<and> ll c' \<noteq> None \<and> wf c'
          \<and> recency c' = (if MaxEntries c < 0 then [] else [\<lparr>ekey = k, evalue = v\<rparr>])
          \<and> evicted c' = (if MaxEntries c < 0 \<and> OnEvicted c then evicted c @ [(k, v)]
                           else evicted c))
    \<and> (\<forall>ks (c0 :: ('k, 'v) Cache) c1.
          Cache_Clear ks c0 = Inr c1 \<longrightarrow> cache c1 = None \<and> ll c1 = None)
    \<and> cache (zero_Cache :: ('k, 'v) Cache) = None"
proof -
  let ?i = "c\<lparr>cache := Some Map.empty, ll := Some []\<rparr>"
  have nil: "Cache_Add k v c = Cache_Add k v ?i" by (rule Add_nil[OF assms])
  have ri: "recency ?i = []" "the_map ?i k = None"
    by (simp_all add: recency_def the_list_def the_map_def)
  obtain c' where c': "Cache_Add k v ?i = Inr c'" "wf c'"
      "if MaxEntries ?i \<noteq> 0 \<and> int (length (recency ?i)) + 1 > MaxEntries ?i
         then recency c' = butlast (\<lparr>ekey = k, evalue = v\<rparr> # recency ?i)
            \<and> evicted c' =
                (if OnEvicted ?i
                 then evicted ?i @ [(ekey (last (\<lparr>ekey = k, evalue = v\<rparr> # recency ?i)),
                                    evalue (last (\<lparr>ekey = k, evalue = v\<rparr> # recency ?i)))]
                 else evicted ?i)
         else recency c' = \<lparr>ekey = k, evalue = v\<rparr> # recency ?i \<and> evicted c' = evicted ?i"
    using Add_absent[OF wf_init ri(2), of v] by blast
  have some: "cache c' \<noteq> None \<and> ll c' \<noteq> None"
    using c'(1)
    by (auto simp: Cache_Add_def Cache_RemoveOldest_def Cache_removeElement_def Let_def
        list_Back_def OnEvicted_call_def split: if_splits)
  have rec: "recency c' = (if MaxEntries c < 0 then [] else [\<lparr>ekey = k, evalue = v\<rparr>])"
    using c'(3) unfolding ri(1) by (auto split: if_splits)
  have ev: "evicted c' = (if MaxEntries c < 0 \<and> OnEvicted c then evicted c @ [(k, v)]
                           else evicted c)"
    using c'(3) unfolding ri(1) by (auto split: if_splits)
  have clear: "\<forall>ks (c0 :: ('k, 'v) Cache) c1.
          Cache_Clear ks c0 = Inr c1 \<longrightarrow> cache c1 = None \<and> ll c1 = None"
    by (auto simp: Cache_Clear_def split: sum.splits)
  have ops: "Cache_Get k c = Inr ((None, False), c)" "Cache_Len c = Inr 0"
    "Cache_Remove k c = Inr c" "Cache_RemoveOldest c = Inr c"
    "Cache_Clear [] c = Inr (c\<lparr>ll := None, cache := None\<rparr>)"
    using assms
    by (simp_all add: Cache_Get_def Cache_Len_def Cache_Remove_def Cache_RemoveOldest_def
        Cache_Clear_def)
  show ?thesis
    using ops nil c'(1,2) some rec ev clear by (simp add: zero_Cache_def)
qed

theorem C10_nil_state_witness:
  "cache (zero_Cache :: (nat, nat) Cache) = None
   \<and> Cache_Get 1 (zero_Cache :: (nat, nat) Cache) = Inr ((None, False), zero_Cache)
   \<and> Cache_Len (zero_Cache :: (nat, nat) Cache) = Inr 0
   \<and> Cache_Remove 1 (zero_Cache :: (nat, nat) Cache) = Inr zero_Cache
   \<and> Cache_RemoveOldest (zero_Cache :: (nat, nat) Cache) = Inr zero_Cache
   \<and> (\<exists>c'. Cache_Add 1 10 (zero_Cache :: (nat, nat) Cache) = Inr c'
         \<and> recency c' = [\<lparr>ekey = 1, evalue = 10\<rparr>])"
proof -
  have z: "cache (zero_Cache :: (nat, nat) Cache) = None" by (simp add: zero_Cache_def)
  note t = C10_nil_state[OF z, of 1 10]
  have "\<exists>c'. Cache_Add 1 10 (zero_Cache :: (nat, nat) Cache) = Inr c'
         \<and> recency c' = (if MaxEntries (zero_Cache :: (nat, nat) Cache) < 0 then []
                          else [\<lparr>ekey = 1, evalue = 10\<rparr>])"
    using t by blast
  then have "\<exists>c'. Cache_Add 1 10 (zero_Cache :: (nat, nat) Cache) = Inr c'
         \<and> recency c' = [\<lparr>ekey = 1, evalue = 10\<rparr>]"
    by (simp add: zero_Cache_def)
  then show ?thesis using z t by simp
qed

end
